theory Spec2Isabelle
  imports Main "HOL-Library.Word" "HOL-Library.FSet"
begin

section \<open>Values shared by every operation of a file handle\<close>

type_synonym byte = "8 word"

text \<open>
  A Go \<open>error\<close> is \<open>nil\<close> or an error value: \<open>goerror option\<close>, with \<open>None\<close> for
  \<open>nil\<close>. The only error value the handle compares against is \<open>io.EOF\<close>; every other
  value is told apart by a number (an errno, say).
\<close>

datatype goerror = EOF | Errno nat

text \<open>
  A method either returns or panics. Calling a method on the staging reference after it
  was set to \<open>nil\<close> is a nil dereference: the call does not return.
\<close>

datatype 'a exec = Ret 'a | Panic

subsection \<open>Log records\<close>

datatype level = ERROR | WARN | INFO | DEBUG | TRACE

datatype opname = OpTruncate | OpRead | OpWrite | OpFlush | OpFsync | OpClose

datatype fieldkey =
  Operation | Bytes | Error | Flags | TotalBytesRead | TotalBytesWritten | FileHandleID | Path

datatype fieldval =
  IntVal int | StrVal string | ErrVal goerror | OpVal opname | KeyVal fieldkey

type_synonym Fields = "fieldkey \<rightharpoonup> fieldval"

datatype logentry = LogEntry level string Fields

definition logerror :: "string \<Rightarrow> Fields \<Rightarrow> logentry" where
  "logerror msg f = LogEntry ERROR msg f"

definition logwarn :: "string \<Rightarrow> Fields \<Rightarrow> logentry" where
  "logwarn msg f = LogEntry WARN msg f"

definition loginfo :: "string \<Rightarrow> Fields \<Rightarrow> logentry" where
  "loginfo msg f = LogEntry INFO msg f"

definition logdebug :: "string \<Rightarrow> Fields \<Rightarrow> logentry" where
  "logdebug msg f = LogEntry DEBUG msg f"

definition logtrace :: "string \<Rightarrow> Fields \<Rightarrow> logentry" where
  "logtrace msg f = LogEntry TRACE msg f"

section \<open>The state a handle works on\<close>

text \<open>
  \<open>fh.File.handle\<close>: the staging file of the inode, shared by all its handles.
\<close>

record FileProxy =
  content :: "byte list"
  position :: nat
  writable :: bool

text \<open>
  \<open>fh.File\<close>: the inode. \<open>handle\<close> is \<open>None\<close> once \<open>Release\<close> has set it to \<open>nil\<close>.
\<close>

record FileINode =
  AbsolutePath :: string
  Mode :: nat
  handle :: "FileProxy option"
  activeHandles :: "int fset"
  metadataCached :: bool

text \<open>
  Calls that leave the handle: to the remote filesystem (through the connector and the
  writer it returns) and the close of the staging file.
\<close>

datatype call =
  CreateFileCall string nat bool
  | WriterWrite "byte list"
  | WriterClose
  | ConnectorClose
  | StagingClose

text \<open>
  The inode, the remote files by path, the calls made so far, and what the next calls
  on the staging file and on the remote filesystem will meet: each call takes the head
  of its list, \<open>Some e\<close> makes it fail with \<open>e\<close>, \<open>None\<close> (or an empty list) lets it
  through. \<open>MaxAttempts\<close> is \<open>FileSystem.RetryPolicy.MaxAttempts\<close>.
\<close>

record world =
  File :: FileINode
  remote :: "string \<rightharpoonup> byte list"
  calls :: "call list"
  stagingFaults :: "goerror option list"
  remoteFaults :: "goerror option list"
  MaxAttempts :: nat

record FileHandle =
  fileFlags :: nat
  tatalBytesRead :: int
  totalBytesWritten :: int
  fhID :: int

record ReadRequest =
  ReadOffset :: int
  ReadSize :: nat

record WriteRequest =
  WriteData :: "byte list"
  WriteOffset :: int

fun nextFault :: "goerror option list \<Rightarrow> goerror option \<times> goerror option list" where
  "nextFault [] = (None, [])"
| "nextFault (f # fs) = (f, fs)"

definition setHandle :: "FileProxy \<Rightarrow> world \<Rightarrow> world" where
  "setHandle h w = w\<lparr>File := (File w)\<lparr>handle := Some h\<rparr>\<rparr>"

subsection \<open>The staging file\<close>

text \<open>
  Modelled from the spec: the staging store (section 4.E), whose code is not among the
  sources. \<open>truncate(size)\<close> has POSIX semantics: grow with zero-fill, shrink drops bytes.
\<close>

definition hTruncate :: "int \<Rightarrow> world \<Rightarrow> (goerror option \<times> world) exec" where
  "hTruncate sz w =
     (case handle (File w) of
        None \<Rightarrow> Panic
      | Some h \<Rightarrow>
          (case nextFault (stagingFaults w) of
             (f, fs) \<Rightarrow>
               (case f of
                  Some e \<Rightarrow> Ret (Some e, w\<lparr>stagingFaults := fs\<rparr>)
                | None \<Rightarrow>
                    if sz < 0 then Ret (Some (Errno 22), w\<lparr>stagingFaults := fs\<rparr>)
                    else Ret (None,
                      setHandle
                        (h\<lparr>content := take (nat sz) (content h)
                             @ replicate (nat sz - length (content h)) 0\<rparr>)
                        (w\<lparr>stagingFaults := fs\<rparr>)))))"

text \<open>
  Modelled from the spec: \<open>readAt(offset, buf)\<close> of the staging store, with the contract
  of Go's \<open>io.ReaderAt\<close>: fewer bytes than the buffer holds come with \<open>io.EOF\<close>.
  The first argument is the length of the buffer.
\<close>

definition hReadAt ::
  "nat \<Rightarrow> int \<Rightarrow> world \<Rightarrow> ((nat \<times> byte list \<times> goerror option) \<times> world) exec" where
  "hReadAt n off w =
     (case handle (File w) of
        None \<Rightarrow> Panic
      | Some h \<Rightarrow>
          (case nextFault (stagingFaults w) of
             (f, fs) \<Rightarrow>
               (case f of
                  Some e \<Rightarrow> Ret ((0, [], Some e), w\<lparr>stagingFaults := fs\<rparr>)
                | None \<Rightarrow>
                    if off < 0 then Ret ((0, [], Some (Errno 22)), w\<lparr>stagingFaults := fs\<rparr>)
                    else
                      (let bs = take n (drop (nat off) (content h)) in
                       Ret ((length bs, bs, if length bs < n then Some EOF else None),
                            w\<lparr>stagingFaults := fs\<rparr>)))))"

text \<open>What \<open>pwrite\<close> leaves in a file: a gap before the offset is filled with zeros.\<close>

definition pwrite :: "byte list \<Rightarrow> nat \<Rightarrow> byte list \<Rightarrow> byte list" where
  "pwrite c off d =
     (if d = [] then c
      else take off c @ replicate (off - length c) 0 @ d @ drop (off + length d) c)"

text \<open>
  Modelled from the spec: \<open>writeAt(offset, buf)\<close> of the staging store; a store that was
  not upgraded for writing refuses the write.
\<close>

definition hWriteAt ::
  "byte list \<Rightarrow> int \<Rightarrow> world \<Rightarrow> ((nat \<times> goerror option) \<times> world) exec" where
  "hWriteAt d off w =
     (case handle (File w) of
        None \<Rightarrow> Panic
      | Some h \<Rightarrow>
          (case nextFault (stagingFaults w) of
             (f, fs) \<Rightarrow>
               (case f of
                  Some e \<Rightarrow> Ret ((0, Some e), w\<lparr>stagingFaults := fs\<rparr>)
                | None \<Rightarrow>
                    if off < 0 then Ret ((0, Some (Errno 22)), w\<lparr>stagingFaults := fs\<rparr>)
                    else if writable h then
                      Ret ((length d, None),
                        setHandle (h\<lparr>content := pwrite (content h) (nat off) d\<rparr>)
                          (w\<lparr>stagingFaults := fs\<rparr>))
                    else Ret ((0, Some (Errno 9)), w\<lparr>stagingFaults := fs\<rparr>))))"

text \<open>Modelled from the spec: \<open>seekToStart\<close> of the staging store.\<close>

definition hSeekToStart :: "world \<Rightarrow> (goerror option \<times> world) exec" where
  "hSeekToStart w =
     (case handle (File w) of
        None \<Rightarrow> Panic
      | Some h \<Rightarrow>
          (case nextFault (stagingFaults w) of
             (f, fs) \<Rightarrow>
               (case f of
                  Some e \<Rightarrow> Ret (Some e, w\<lparr>stagingFaults := fs\<rparr>)
                | None \<Rightarrow> Ret (None, setHandle (h\<lparr>position := 0\<rparr>) (w\<lparr>stagingFaults := fs\<rparr>)))))"

text \<open>
  Modelled from the spec: the sequential read of the staging store, a local file, with
  the behaviour of Go's \<open>os.File.Read\<close>: an empty buffer reads nothing and is no error,
  the end of the file is \<open>(0, io.EOF)\<close>, and otherwise at least one byte is read.
  The first argument is the length of the buffer.
\<close>

definition hRead ::
  "nat \<Rightarrow> world \<Rightarrow> ((nat \<times> byte list \<times> goerror option) \<times> world) exec" where
  "hRead n w =
     (case handle (File w) of
        None \<Rightarrow> Panic
      | Some h \<Rightarrow>
          (case nextFault (stagingFaults w) of
             (f, fs) \<Rightarrow>
               (case f of
                  Some e \<Rightarrow> Ret ((0, [], Some e), w\<lparr>stagingFaults := fs\<rparr>)
                | None \<Rightarrow>
                    if n = 0 then Ret ((0, [], None), w\<lparr>stagingFaults := fs\<rparr>)
                    else if length (content h) \<le> position h
                    then Ret ((0, [], Some EOF), w\<lparr>stagingFaults := fs\<rparr>)
                    else
                      (let bs = take n (drop (position h) (content h)) in
                       Ret ((length bs, bs, None),
                         setHandle (h\<lparr>position := position h + length bs\<rparr>)
                           (w\<lparr>stagingFaults := fs\<rparr>))))))"

text \<open>Modelled from the spec: \<open>close\<close> of the staging store.\<close>

definition hClose :: "world \<Rightarrow> (goerror option \<times> world) exec" where
  "hClose w =
     (case handle (File w) of
        None \<Rightarrow> Panic
      | Some h \<Rightarrow>
          (case nextFault (stagingFaults w) of
             (f, fs) \<Rightarrow> Ret (f, w\<lparr>stagingFaults := fs, calls := calls w @ [StagingClose]\<rparr>)))"

text \<open>
  Modelled from the spec: \<open>upgradeForWrite\<close> (section 4.E), idempotent, from read-only to
  read-write with the contents kept. A cleared reference stays cleared.
\<close>

definition upgradeHandleForWriting :: "world \<Rightarrow> world" where
  "upgradeHandleForWriting w =
     (case handle (File w) of
        None \<Rightarrow> w
      | Some h \<Rightarrow> setHandle (h\<lparr>writable := True\<rparr>) w)"

subsection \<open>The inode\<close>

text \<open>
  Modelled from the spec: \<open>InvalidateMetadataCache\<close>, not among the sources; the cached
  metadata of the inode's path is dropped (section 4.D).
\<close>

definition InvalidateMetadataCache :: "world \<Rightarrow> world" where
  "InvalidateMetadataCache w = w\<lparr>File := (File w)\<lparr>metadataCached := False\<rparr>\<rparr>"

text \<open>
  Modelled from the spec: \<open>RemoveHandle\<close>, not among the sources; the inode's handles
  are a set of handle ids (section 3) and the handle is taken out of it.
\<close>

definition RemoveHandle :: "FileHandle \<Rightarrow> world \<Rightarrow> world" where
  "RemoveHandle fh w =
     w\<lparr>File := (File w)\<lparr>activeHandles := activeHandles (File w) |-| {|fhID fh|}\<rparr>\<rparr>"

text \<open>
  Modelled from the spec: \<open>countActiveHandles\<close>, not among the sources; the size of the
  inode's set of handles, the source of truth for closing the staging file (section 3).
\<close>

definition countActiveHandles :: "world \<Rightarrow> nat" where
  "countActiveHandles w = fcard (activeHandles (File w))"

subsection \<open>The remote filesystem\<close>

text \<open>
  Modelled from the spec: \<open>create(path, mode, overwrite)\<close> of the remote client
  (section 4.A); with \<open>overwrite\<close> the file is replaced by an empty one. The writer it
  returns is the file at that path.
\<close>

definition CreateFile :: "string \<Rightarrow> nat \<Rightarrow> bool \<Rightarrow> world \<Rightarrow> goerror option \<times> world" where
  "CreateFile p m overwrite w =
     (case nextFault (remoteFaults w) of
        (f, fs) \<Rightarrow>
          (let w' = w\<lparr>remoteFaults := fs, calls := calls w @ [CreateFileCall p m overwrite]\<rparr> in
           case f of
             Some e \<Rightarrow> (Some e, w')
           | None \<Rightarrow>
               if overwrite then (None, w'\<lparr>remote := (remote w)(p \<mapsto> [])\<rparr>)
               else if remote w p = None then (None, w'\<lparr>remote := (remote w)(p \<mapsto> [])\<rparr>)
               else (Some (Errno 17), w')))"

text \<open>
  Modelled from the spec: the remote writer. A write that returns no error has taken
  the whole chunk (the contract of Go's \<open>io.Writer\<close>).
\<close>

definition writerWrite :: "string \<Rightarrow> byte list \<Rightarrow> world \<Rightarrow> (nat \<times> goerror option) \<times> world" where
  "writerWrite p b w =
     (case nextFault (remoteFaults w) of
        (f, fs) \<Rightarrow>
          (let w' = w\<lparr>remoteFaults := fs, calls := calls w @ [WriterWrite b]\<rparr> in
           case f of
             Some e \<Rightarrow> ((0, Some e), w')
           | None \<Rightarrow>
               ((length b, None),
                w'\<lparr>remote := (remote w)(p \<mapsto> (case remote w p of None \<Rightarrow> [] | Some c \<Rightarrow> c) @ b)\<rparr>)))"

text \<open>Modelled from the spec: closing the remote writer (step 5 of the copy protocol).\<close>

definition writerClose :: "world \<Rightarrow> goerror option \<times> world" where
  "writerClose w =
     (case nextFault (remoteFaults w) of
        (f, fs) \<Rightarrow> (f, w\<lparr>remoteFaults := fs, calls := calls w @ [WriterClose]\<rparr>))"

text \<open>Modelled from the spec: closing the connector forces a reconnect (section 4.B).\<close>

definition connectorClose :: "world \<Rightarrow> world" where
  "connectorClose w = w\<lparr>calls := calls w @ [ConnectorClose]\<rparr>"

subsection \<open>The retry policy\<close>

text \<open>
  Modelled from the spec: the retry operation (section 3), not among the sources, with
  its count of attempts and their maximum.
\<close>

record RetryOp =
  attempt :: nat
  maxAttempts :: nat

text \<open>Modelled from the spec: \<open>StartOperation\<close>; the first attempt is in flight.\<close>

definition StartOperation :: "world \<Rightarrow> RetryOp" where
  "StartOperation w = \<lparr>attempt = 1, maxAttempts = MaxAttempts w\<rparr>"

text \<open>
  Modelled from the spec: \<open>shouldRetry\<close> (section 4.H) is false when the error is
  classified non-retriable or when the attempts have reached the maximum; otherwise one
  more attempt is counted. The classification is a parameter.
\<close>

definition ShouldRetry ::
  "(goerror option \<Rightarrow> bool) \<Rightarrow> RetryOp \<Rightarrow> goerror option \<Rightarrow> bool \<times> RetryOp" where
  "ShouldRetry nonRetriable rop err =
     (if nonRetriable err then (False, rop)
      else if maxAttempts rop \<le> attempt rop then (False, rop)
      else (True, rop\<lparr>attempt := attempt rop + 1\<rparr>))"

section \<open>The file handle\<close>

definition logInfo :: "FileHandle \<Rightarrow> world \<Rightarrow> Fields \<Rightarrow> Fields" where
  "logInfo fh w flds =
     [FileHandleID \<mapsto> IntVal (fhID fh), Path \<mapsto> StrVal (AbsolutePath (File w))] ++ flds"

definition dataChanged :: "FileHandle \<Rightarrow> bool" where
  "dataChanged fh = (if totalBytesWritten fh > 0 then True else False)"

text \<open>The results are the returned error, the new state and the log records written.\<close>

definition Truncate ::
  "FileHandle \<Rightarrow> int \<Rightarrow> world \<Rightarrow> (goerror option \<times> world \<times> logentry list) exec" where
  "Truncate fh sz w =
     (case hTruncate sz w of
        Panic \<Rightarrow> Panic
      | Ret (err, w1) \<Rightarrow>
          Ret (None, w1,
            (case err of
               Some e \<Rightarrow>
                 [logerror ''Failed to truncate file''
                    (logInfo fh w1
                       [Operation \<mapsto> OpVal OpTruncate, Bytes \<mapsto> IntVal sz, Error \<mapsto> ErrVal e])]
             | None \<Rightarrow> [])
            @ [loginfo ''Truncated file''
                 (logInfo fh w1 [Operation \<mapsto> OpVal OpTruncate, Bytes \<mapsto> IntVal sz])]))"

text \<open>
  \<open>Read\<close> also returns \<open>resp.Data\<close> and the handle with its counter of bytes read.
\<close>

definition Read ::
  "FileHandle \<Rightarrow> ReadRequest \<Rightarrow> world
     \<Rightarrow> (goerror option \<times> byte list \<times> FileHandle \<times> world \<times> logentry list) exec" where
  "Read fh req w =
     (case hReadAt (ReadSize req) (ReadOffset req) w of
        Panic \<Rightarrow> Panic
      | Ret ((nr, buf, err), w1) \<Rightarrow>
          (let fh1 = fh\<lparr>tatalBytesRead := tatalBytesRead fh + int nr\<rparr> in
           case err of
             Some e \<Rightarrow>
               if e = EOF
               then Ret (None, buf, fh1, w1,
                 [logdebug ''Completed reading''
                    (logInfo fh1 w1
                       [Operation \<mapsto> OpVal OpRead, Error \<mapsto> ErrVal e, Bytes \<mapsto> IntVal (int nr)])])
               else Ret (Some e, buf, fh1, w1,
                 [logerror ''Failed to read''
                    (logInfo fh1 w1
                       [Operation \<mapsto> OpVal OpRead, Error \<mapsto> ErrVal e, Bytes \<mapsto> IntVal (int nr)])])
           | None \<Rightarrow> Ret (err, buf, fh1, w1, [])))"

text \<open>
  \<open>Write\<close> also returns \<open>resp.Size\<close> and the handle with its counter of bytes written.
\<close>

definition Write ::
  "FileHandle \<Rightarrow> WriteRequest \<Rightarrow> world
     \<Rightarrow> (goerror option \<times> nat \<times> FileHandle \<times> world \<times> logentry list) exec" where
  "Write fh req w =
     (case hWriteAt (WriteData req) (WriteOffset req) (upgradeHandleForWriting w) of
        Panic \<Rightarrow> Panic
      | Ret ((nw, err), w1) \<Rightarrow>
          (let fh1 = fh\<lparr>totalBytesWritten := totalBytesWritten fh + int nw\<rparr> in
           case err of
             Some e \<Rightarrow>
               Ret (Some e, nw, fh1, w1,
                 [logerror ''Failed to write to staging file''
                    (logInfo fh1 w1 [Operation \<mapsto> OpVal OpWrite, Error \<mapsto> ErrVal e])])
           | None \<Rightarrow>
               Ret (None, nw, fh1, w1,
                 [logdebug ''Write data to staging file''
                    (logInfo fh1 w1 [Operation \<mapsto> OpVal OpWrite, Bytes \<mapsto> IntVal (int nw)])])))"

subsection \<open>Copying the staging file to the remote filesystem\<close>

text \<open>
  The loop of \<open>FlushAttempt\<close>. It is left by \<open>break\<close> (the read returned an error, the
  end of the file or any other) or by \<open>return err\<close> (the write failed; the writer has
  been closed). Its arguments are the writer (the remote path it was opened on), the
  length of the buffer \<open>b\<close>, which \<open>b = b[:nr]\<close> shortens, and \<open>written\<close>. No result
  (\<open>None\<close>) is a loop that runs forever.
\<close>

datatype loopexit = Break | Return goerror

partial_function (option) copyLoop ::
  "opname \<Rightarrow> FileHandle \<Rightarrow> string \<Rightarrow> nat \<Rightarrow> int \<Rightarrow> world \<Rightarrow> logentry list
     \<Rightarrow> (loopexit \<times> int \<times> world \<times> logentry list) exec option" where
  "copyLoop operation fh wr blen written w logs =
     (case hRead blen w of
        Panic \<Rightarrow> Some Panic
      | Ret ((nr, b, err), w1) \<Rightarrow>
          (case err of
             Some e \<Rightarrow>
               Some (Ret (Break, written, w1,
                 logs @ (if e \<noteq> EOF
                         then [logerror ''Failed to read from staging file''
                                 (logInfo fh w1 [Operation \<mapsto> OpVal operation, Error \<mapsto> ErrVal e])]
                         else [])))
           | None \<Rightarrow>
               (case writerWrite wr b w1 of
                  ((nw, Some e), w2) \<Rightarrow>
                    (case writerClose w2 of
                       (cerr, w3) \<Rightarrow>
                         Some (Ret (Return e, written, w3,
                           logs @ [logerror ''Failed to write to DFS''
                                     (logInfo fh w2 [Operation \<mapsto> OpVal operation, Error \<mapsto> ErrVal e])])))
                | ((nw, None), w2) \<Rightarrow>
                    copyLoop operation fh wr nr (written + int nw) w2
                      (logs @ [logtrace ''Written to DFS''
                                 (logInfo fh w2 [Operation \<mapsto> OpVal operation, Bytes \<mapsto> IntVal (int nw)])]))))"

declare copyLoop.simps [code]

definition FlushAttempt ::
  "opname \<Rightarrow> FileHandle \<Rightarrow> world \<Rightarrow> (goerror option \<times> world \<times> logentry list) exec option" where
  "FlushAttempt operation fh w =
     (case CreateFile (AbsolutePath (File w)) (Mode (File w)) True w of
        (Some e, w1) \<Rightarrow>
          Some (Ret (Some e, w1,
            [logerror ''Error creating file in DFS''
               (logInfo fh w1 [Operation \<mapsto> OpVal operation, Error \<mapsto> ErrVal e])]))
      | (None, w1) \<Rightarrow>
          (case hSeekToStart w1 of
             Panic \<Rightarrow> Some Panic
           | Ret (Some e, w2) \<Rightarrow>
               Some (Ret (Some e, w2,
                 [logerror ''Unable to seek to the begenning of the temp file''
                    (logInfo fh w2 [Operation \<mapsto> OpVal operation, Error \<mapsto> ErrVal e])]))
           | Ret (None, w2) \<Rightarrow>
               (case copyLoop operation fh (AbsolutePath (File w)) 65536 0 w2 [] of
                  None \<Rightarrow> None
                | Some Panic \<Rightarrow> Some Panic
                | Some (Ret (Return e, written, w3, logs)) \<Rightarrow> Some (Ret (Some e, w3, logs))
                | Some (Ret (Break, written, w3, logs)) \<Rightarrow>
                    (case writerClose w3 of
                       (Some e, w4) \<Rightarrow>
                         Some (Ret (Some e, w4,
                           logs @ [logerror ''Failed to close file in DFS''
                                     (logInfo fh w4 [Operation \<mapsto> OpVal operation, Error \<mapsto> ErrVal e])]))
                     | (None, w4) \<Rightarrow>
                         Some (Ret (None, w4,
                           logs @ [loginfo ''Uploaded to DFS''
                                     (logInfo fh w4
                                        [Operation \<mapsto> OpVal operation, Bytes \<mapsto> IntVal written])]))))))"

text \<open>
  The loop of \<open>copyToDFS\<close>. \<open>nonRetriable\<close> is \<open>IsSuccessOrNonRetriableError\<close>, which
  is not among the sources: the classification is a parameter.
\<close>

function copyToDFS_loop ::
  "(goerror option \<Rightarrow> bool) \<Rightarrow> opname \<Rightarrow> FileHandle \<Rightarrow> RetryOp \<Rightarrow> world \<Rightarrow> logentry list
     \<Rightarrow> (goerror option \<times> world \<times> logentry list) exec option" where
  "copyToDFS_loop nonRetriable operation fh rop w logs =
     (case FlushAttempt operation fh w of
        None \<Rightarrow> None
      | Some Panic \<Rightarrow> Some Panic
      | Some (Ret (err, w1, ls)) \<Rightarrow>
          if err \<noteq> Some EOF \<or> nonRetriable err \<or> \<not> fst (ShouldRetry nonRetriable rop err)
          then Some (Ret (err, w1, logs @ ls))
          else copyToDFS_loop nonRetriable operation fh (snd (ShouldRetry nonRetriable rop err))
                 (connectorClose w1)
                 (logs @ ls @ [logwarn ''Failed to copy file to DFS''
                                 (logInfo fh w1 [Operation \<mapsto> OpVal operation])]))"
  by pat_completeness auto
termination
  by (relation "measure (\<lambda>(nonRetriable, operation, fh, rop, w, logs). maxAttempts rop - attempt rop)")
     (auto simp: ShouldRetry_def split: if_splits)

declare copyToDFS_loop.simps [simp del]

text \<open>
  The deferred \<open>InvalidateMetadataCache\<close> runs when \<open>copyToDFS\<close> returns from the loop.
\<close>

definition copyToDFS ::
  "(goerror option \<Rightarrow> bool) \<Rightarrow> opname \<Rightarrow> FileHandle \<Rightarrow> world
     \<Rightarrow> (goerror option \<times> world \<times> logentry list) exec option" where
  "copyToDFS nonRetriable operation fh w =
     (if totalBytesWritten fh = 0 then Some (Ret (None, w, []))
      else
        (case copyToDFS_loop nonRetriable operation fh (StartOperation w) w
                [logdebug ''Uploading to DFS''
                   (logInfo fh w [Operation \<mapsto> OpVal OpWrite, Bytes \<mapsto> KeyVal TotalBytesWritten])] of
           None \<Rightarrow> None
         | Some Panic \<Rightarrow> Some Panic
         | Some (Ret (err, w1, logs)) \<Rightarrow> Some (Ret (err, InvalidateMetadataCache w1, logs))))"

definition withLog ::
  "logentry \<Rightarrow> (goerror option \<times> world \<times> logentry list) exec option
     \<Rightarrow> (goerror option \<times> world \<times> logentry list) exec option" where
  "withLog l r = map_option (map_exec (\<lambda>(err, w, logs). (err, w, l # logs))) r"

definition Flush ::
  "(goerror option \<Rightarrow> bool) \<Rightarrow> FileHandle \<Rightarrow> world
     \<Rightarrow> (goerror option \<times> world \<times> logentry list) exec option" where
  "Flush nonRetriable fh w =
     (if dataChanged fh
      then withLog (loginfo ''Flush file'' (logInfo fh w [Operation \<mapsto> OpVal OpFlush]))
             (copyToDFS nonRetriable OpFlush fh w)
      else Some (Ret (None, w, [])))"

definition Fsync ::
  "(goerror option \<Rightarrow> bool) \<Rightarrow> FileHandle \<Rightarrow> world
     \<Rightarrow> (goerror option \<times> world \<times> logentry list) exec option" where
  "Fsync nonRetriable fh w =
     (if dataChanged fh
      then withLog (loginfo ''Fsync file'' (logInfo fh w [Operation \<mapsto> OpVal OpFsync]))
             (copyToDFS nonRetriable OpFsync fh w)
      else Some (Ret (None, w, [])))"

definition closeFields :: "FileHandle \<Rightarrow> Fields" where
  "closeFields fh =
     [Operation \<mapsto> OpVal OpClose, Flags \<mapsto> IntVal (int (fileFlags fh)),
      TotalBytesRead \<mapsto> IntVal (tatalBytesRead fh),
      TotalBytesWritten \<mapsto> IntVal (totalBytesWritten fh)]"

definition Release ::
  "FileHandle \<Rightarrow> world \<Rightarrow> (goerror option \<times> world \<times> logentry list) exec" where
  "Release fh w =
     (let w1 = RemoveHandle fh (InvalidateMetadataCache w);
          active = countActiveHandles w1
      in if active = 0
         then
           (case hClose w1 of
              Panic \<Rightarrow> Panic
            | Ret (err, w2) \<Rightarrow>
                (let w3 = w2\<lparr>File := (File w2)\<lparr>handle := None\<rparr>\<rparr> in
                 Ret (None, w3,
                   (case err of
                      Some e \<Rightarrow>
                        [logerror ''Failed to close staging file''
                           (logInfo fh w2 [Operation \<mapsto> OpVal OpClose, Error \<mapsto> ErrVal e])]
                    | None \<Rightarrow> [])
                   @ [loginfo ''Staging file is closed'' (logInfo fh w3 (closeFields fh)),
                      loginfo ''Close file'' (logInfo fh w3 (closeFields fh))])))
         else
           Ret (None, w1,
             [logdebug ''Staging file is not closed becuase it has other active handles ''
                (logInfo fh w1 (closeFields fh)),
              loginfo ''Close file'' (logInfo fh w1 (closeFields fh))]))"

section \<open>What the properties are stated with\<close>

text \<open>The bytes of the staging file that the copy loop has not read yet.\<close>

definition remaining :: "world \<Rightarrow> nat" where
  "remaining w =
     (case handle (File w) of None \<Rightarrow> 0 | Some h \<Rightarrow> length (content h) - position h)"

text \<open>
  The spec's words for the stream: fixed-size chunks, the last one holding what is left.
\<close>

function chunks :: "nat \<Rightarrow> 'a list \<Rightarrow> 'a list list" where
  "chunks n xs = (if n = 0 then [] else if xs = [] then [] else take n xs # chunks n (drop n xs))"
  by pat_completeness auto
termination
  by (relation "measure (\<lambda>(n, xs). length xs)") auto

declare chunks.simps [simp del]

text \<open>What a caller and the remote filesystem see of a result: the error, the calls made,
  and the remote file at the inode's path.\<close>

definition observe ::
  "(goerror option \<times> world \<times> logentry list) exec option
     \<Rightarrow> (goerror option \<times> call list \<times> byte list option) exec option" where
  "observe r =
     map_option (map_exec (\<lambda>(err, w, logs). (err, calls w, remote w (AbsolutePath (File w))))) r"

text \<open>What no call of a flush changes in a state.\<close>

definition sameFile :: "world \<Rightarrow> world \<Rightarrow> bool" where
  "sameFile w w' =
     (AbsolutePath (File w') = AbsolutePath (File w) \<and> Mode (File w') = Mode (File w) \<and>
      map_option content (handle (File w')) = map_option content (handle (File w)) \<and>
      set (stagingFaults w') \<subseteq> set (stagingFaults w))"

text \<open>A result without its log records.\<close>

definition unlogged ::
  "(goerror option \<times> world \<times> logentry list) exec option
     \<Rightarrow> (goerror option \<times> world) exec option" where
  "unlogged r = map_option (map_exec (\<lambda>(err, w, logs). (err, w))) r"

text \<open>The bytes handed to the remote writer by a list of calls, and the level and
  message of each log record.\<close>

fun delivered :: "call list \<Rightarrow> byte list" where
  "delivered [] = []"
| "delivered (WriterWrite b # cs) = b @ delivered cs"
| "delivered (c # cs) = delivered cs"

fun headlines :: "logentry list \<Rightarrow> (level \<times> string) list" where
  "headlines [] = []"
| "headlines (LogEntry lv msg f # ls) = (lv, msg) # headlines ls"

subsection \<open>States the properties are tried on\<close>

definition staging0 :: FileProxy where
  "staging0 = \<lparr>content = [1, 2, 3], position = 0, writable = True\<rparr>"

definition file0 :: FileINode where
  "file0 = \<lparr>AbsolutePath = ''/f'', Mode = 420, handle = Some staging0,
            activeHandles = {|1, 2|}, metadataCached = True\<rparr>"

definition world0 :: world where
  "world0 = \<lparr>File = file0, remote = Map.empty, calls = [], stagingFaults = [],
             remoteFaults = [], MaxAttempts = 10\<rparr>"

definition worldLast :: world where
  "worldLast = world0\<lparr>File := file0\<lparr>activeHandles := {|1|}\<rparr>\<rparr>"

definition fh1 :: FileHandle where
  "fh1 = \<lparr>fileFlags = 2, tatalBytesRead = 0, totalBytesWritten = 3, fhID = 1\<rparr>"

text \<open>The staging file fails its first read with EIO (the seek before it succeeds).\<close>

definition worldReadFault :: world where
  "worldReadFault = world0\<lparr>stagingFaults := [None, Some (Errno 5)]\<rparr>"

text \<open>The first remote call fails with a connection reset, or with \<open>io.EOF\<close>.\<close>

definition worldReset :: world where
  "worldReset = world0\<lparr>remoteFaults := [Some (Errno 104)]\<rparr>"

definition worldEOF :: world where
  "worldEOF = world0\<lparr>remoteFaults := [Some EOF]\<rparr>"

text \<open>A freshly opened, empty, read-only staging file whose third call (the first read of
  a flush that follows one write) fails with EIO; and a handle that has written nothing.\<close>

definition worldFresh :: world where
  "worldFresh =
     world0\<lparr>File := file0\<lparr>handle := Some \<lparr>content = [], position = 0, writable = False\<rparr>\<rparr>,
            stagingFaults := [None, None, Some (Errno 5)]\<rparr>"

definition fhNew :: FileHandle where
  "fhNew = \<lparr>fileFlags = 2, tatalBytesRead = 0, totalBytesWritten = 0, fhID = 1\<rparr>"

text \<open>A classification in which a connection reset (errno 104) and \<open>io.EOF\<close> are retriable.\<close>

definition resetRetriable :: "goerror option \<Rightarrow> bool" where
  "resetRetriable err =
     (case err of None \<Rightarrow> True | Some EOF \<Rightarrow> False | Some (Errno n) \<Rightarrow> n \<noteq> 104)"

section \<open>Properties\<close>

lemmas world_simps = world0_def file0_def staging0_def fh1_def worldReadFault_def worldReset_def
  worldEOF_def worldFresh_def fhNew_def worldLast_def resetRetriable_def

lemmas run_simps = FlushAttempt_def copyLoop.simps copyToDFS_loop.simps copyToDFS_def Flush_def Fsync_def
  dataChanged_def withLog_def StartOperation_def ShouldRetry_def InvalidateMetadataCache_def
  CreateFile_def hSeekToStart_def hRead_def writerWrite_def writerClose_def setHandle_def
  connectorClose_def Let_def observe_def

lemmas log_simps = logerror_def logwarn_def loginfo_def logdebug_def logtrace_def


subsection \<open>The calls a handle makes\<close>

lemma nextFault_set: "set (snd (nextFault fs)) \<subseteq> set fs"
  by (cases fs) auto

lemma nextFault_none: "\<forall>f\<in>set fs. f = None \<Longrightarrow> fst (nextFault fs) = None"
  by (cases fs) auto

lemma hRead_ok:
  assumes "hRead blen w = Ret ((nr, b, None), w1)" and "0 < blen"
  shows "\<exists>h. handle (File w) = Some h \<and> position h < length (content h) \<and>
             b = take blen (drop (position h) (content h)) \<and> nr = length b \<and> 0 < nr \<and>
             w1 = setHandle (h\<lparr>position := position h + nr\<rparr>)
                    (w\<lparr>stagingFaults := snd (nextFault (stagingFaults w))\<rparr>) \<and>
             fst (nextFault (stagingFaults w)) = None"
proof -
  obtain f fs where nf: "nextFault (stagingFaults w) = (f, fs)"
    by (cases "nextFault (stagingFaults w)")
  from assms nf show ?thesis
    by (cases "handle (File w)"; cases f)
       (auto simp: hRead_def Let_def split: if_splits)
qed

lemma hRead_Break:
  assumes "hRead blen w = Ret ((nr, b, Some e), w1)" and "fst (nextFault (stagingFaults w)) = None"
  shows "e = EOF \<and> w1 = w\<lparr>stagingFaults := snd (nextFault (stagingFaults w))\<rparr> \<and>
         (\<exists>h. handle (File w) = Some h \<and> length (content h) \<le> position h)"
proof -
  obtain f fs where nf: "nextFault (stagingFaults w) = (f, fs)"
    by (cases "nextFault (stagingFaults w)")
  from assms nf show ?thesis
    by (cases "handle (File w)"; cases f)
       (auto simp: hRead_def Let_def split: if_splits)
qed

lemma hRead_calls:
  assumes "hRead blen w = Ret (r, w1)"
  shows "calls w1 = calls w"
proof -
  obtain f fs where nf: "nextFault (stagingFaults w) = (f, fs)"
    by (cases "nextFault (stagingFaults w)")
  from assms nf show ?thesis
    by (cases "handle (File w)"; cases f)
       (auto simp: hRead_def Let_def setHandle_def split: if_splits)
qed

lemma writerWrite_ok:
  assumes "writerWrite wr b w = ((nw, None), w2)"
  shows "nw = length b \<and> File w2 = File w \<and> calls w2 = calls w @ [WriterWrite b] \<and>
         remote w2 = (remote w)(wr \<mapsto> (case remote w wr of None \<Rightarrow> [] | Some c \<Rightarrow> c) @ b) \<and>
         stagingFaults w2 = stagingFaults w \<and> remoteFaults w2 = snd (nextFault (remoteFaults w)) \<and>
         MaxAttempts w2 = MaxAttempts w"
proof -
  obtain f fs where nf: "nextFault (remoteFaults w) = (f, fs)"
    by (cases "nextFault (remoteFaults w)")
  from assms nf show ?thesis
    by (cases f) (auto simp: writerWrite_def Let_def)
qed

lemma writerWrite_calls: "calls (snd (writerWrite wr b w)) = calls w @ [WriterWrite b]"
proof -
  obtain f fs where nf: "nextFault (remoteFaults w) = (f, fs)"
    by (cases "nextFault (remoteFaults w)")
  then show ?thesis by (cases f) (simp_all add: writerWrite_def Let_def)
qed

lemma writerClose_eq:
  "writerClose w = (fst (nextFault (remoteFaults w)),
     w\<lparr>remoteFaults := snd (nextFault (remoteFaults w)), calls := calls w @ [WriterClose]\<rparr>)"
  by (cases "nextFault (remoteFaults w)") (simp add: writerClose_def)

lemma writerClose_calls: "calls (snd (writerClose w)) = calls w @ [WriterClose]"
  by (cases "nextFault (remoteFaults w)") (simp add: writerClose_def)

lemma CreateFile_overwrite:
  "CreateFile p m True w = (err, w1) \<Longrightarrow>
     calls w1 = calls w @ [CreateFileCall p m True] \<and> File w1 = File w \<and>
     stagingFaults w1 = stagingFaults w \<and> MaxAttempts w1 = MaxAttempts w \<and>
     (err = None \<longrightarrow> remote w1 p = Some [])"
  by (cases "nextFault (remoteFaults w)"; cases "fst (nextFault (remoteFaults w))")
     (auto simp: CreateFile_def Let_def)

lemma hSeekToStart_ok:
  assumes "handle (File w) = Some h" and "fst (nextFault (stagingFaults w)) = None"
  shows "hSeekToStart w = Ret (None, setHandle (h\<lparr>position := 0\<rparr>)
           (w\<lparr>stagingFaults := snd (nextFault (stagingFaults w))\<rparr>))"
  using assms by (cases "nextFault (stagingFaults w)") (simp add: hSeekToStart_def)

lemma hSeekToStart_calls:
  assumes "hSeekToStart w = Ret (r, w1)"
  shows "calls w1 = calls w"
proof -
  obtain f fs where nf: "nextFault (stagingFaults w) = (f, fs)"
    by (cases "nextFault (stagingFaults w)")
  from assms nf show ?thesis
    by (cases "handle (File w)"; cases f) (auto simp: hSeekToStart_def setHandle_def)
qed


subsection \<open>Chunks\<close>

text \<open>The chunks of a list are not empty, none is longer than the size, all but the last
  have the size, and together they are the list.\<close>

lemma chunks_Nil [simp]: "chunks n [] = []"
  by (subst chunks.simps) simp

lemma chunks_Cons: "0 < n \<Longrightarrow> xs \<noteq> [] \<Longrightarrow> chunks n xs = take n xs # chunks n (drop n xs)"
  by (subst chunks.simps) simp

lemma chunks_shrink:
  assumes "0 < n"
  shows "chunks (length (take n xs)) (drop (length (take n xs)) xs) = chunks n (drop n xs)"
proof (cases "n \<le> length xs")
  case True
  then show ?thesis by (simp add: min_def)
next
  case False
  then have "drop n xs = []" "length (take n xs) = length xs" by simp_all
  then show ?thesis by simp
qed

lemma take_drop_length_take: "take n xs @ drop (length (take n xs)) xs = xs"
  by (cases "n \<le> length xs") (simp_all add: min_def)

lemma concat_chunks: "0 < n \<Longrightarrow> concat (chunks n xs) = xs"
proof (induction n xs rule: chunks.induct)
  case (1 n xs)
  show ?case
  proof (cases "xs = []")
    case True
    then show ?thesis by simp
  next
    case False
    with 1 show ?thesis by (simp add: chunks_Cons)
  qed
qed

lemma chunks_length: "c \<in> set (chunks n xs) \<Longrightarrow> 0 < length c \<and> length c \<le> n"
proof (induction n xs rule: chunks.induct)
  case (1 n xs)
  show ?case
  proof (cases "n = 0 \<or> xs = []")
    case True
    then have "chunks n xs = []" by (subst chunks.simps) auto
    with 1(2) show ?thesis by simp
  next
    case False
    with 1 show ?thesis by (auto simp: chunks_Cons)
  qed
qed

lemma chunks_butlast: "c \<in> set (butlast (chunks n xs)) \<Longrightarrow> length c = n"
proof (induction n xs rule: chunks.induct)
  case (1 n xs)
  show ?case
  proof (cases "n = 0 \<or> xs = []")
    case True
    then have "chunks n xs = []" by (subst chunks.simps) auto
    with 1(2) show ?thesis by simp
  next
    case False
    then have ch: "chunks n xs = take n xs # chunks n (drop n xs)" by (simp add: chunks_Cons)
    show ?thesis
    proof (cases "chunks n (drop n xs) = []")
      case True
      with ch 1(2) show ?thesis by simp
    next
      case ne: False
      then have "drop n xs \<noteq> []" by auto
      then have len: "length (take n xs) = n" by simp
      from ch ne 1(2) have "c = take n xs \<or> c \<in> set (butlast (chunks n (drop n xs)))" by simp
      with len 1(1) False show ?thesis by auto
    qed
  qed
qed

lemma delivered_append: "delivered (xs @ ys) = delivered xs @ delivered ys"
  by (induction xs rule: delivered.induct) simp_all

lemma delivered_chunks: "delivered (map WriterWrite cs) = concat cs"
  by (induction cs) simp_all


subsection \<open>The copy loop\<close>

text \<open>
  Every round that goes on has read at least one byte, so the loop ends: induction on the
  bytes of the staging file that are left.
\<close>

lemma copyLoop_step_decreases:
  assumes "hRead blen w = Ret ((nr, b, None), w1)" and "0 < blen"
    and "writerWrite wr b w1 = ((nw, None), w2)"
  shows "remaining w2 < remaining w \<and> 0 < nr"
proof -
  from hRead_ok [OF assms(1,2)] obtain h where
    h: "handle (File w) = Some h" "position h < length (content h)" "0 < nr"
       "w1 = setHandle (h\<lparr>position := position h + nr\<rparr>)
                    (w\<lparr>stagingFaults := snd (nextFault (stagingFaults w))\<rparr>)"
    by blast
  from writerWrite_ok [OF assms(3)] have "File w2 = File w1" by simp
  with h show ?thesis by (simp add: remaining_def setHandle_def)
qed

lemma copyLoop_induct [consumes 1, case_names step]:
  assumes pos: "0 < blen"
    and step: "\<And>blen written w. 0 < blen \<Longrightarrow>
                 (\<And>nr b w1 nw w2. hRead blen w = Ret ((nr, b, None), w1) \<Longrightarrow>
                      writerWrite wr b w1 = ((nw, None), w2) \<Longrightarrow>
                      P nr (written + int nw) w2) \<Longrightarrow> P blen written w"
  shows "P blen written w"
  using pos
proof (induction "remaining w" arbitrary: blen written w rule: less_induct)
  case less
  show ?case
  proof (rule step [OF less.prems])
    fix nr b w1 nw w2
    assume a: "hRead blen w = Ret ((nr, b, None), w1)" "writerWrite wr b w1 = ((nw, None), w2)"
    from copyLoop_step_decreases [OF a(1) less.prems a(2)]
    show "P nr (written + int nw) w2" using less.hyps by blast
  qed
qed

lemma copyLoop_terminates:
  assumes "0 < blen"
  shows "\<exists>r. copyLoop operation fh wr blen written w logs = Some r"
  using assms
proof (induction blen written w arbitrary: logs rule: copyLoop_induct [where wr = wr])
  case (step blen written w)
  show ?case
    apply (subst copyLoop.simps)
    using step.IH
    by (auto split: exec.splits prod.splits option.splits)
qed

lemma copyLoop_Panic:
  "hRead blen w = Panic \<Longrightarrow> copyLoop operation fh wr blen written w logs = Some Panic"
  by (subst copyLoop.simps) simp

lemma copyLoop_Break:
  "hRead blen w = Ret ((nr, b, Some e), w1) \<Longrightarrow>
   copyLoop operation fh wr blen written w logs =
     Some (Ret (Break, written, w1,
       logs @ (if e \<noteq> EOF
               then [logerror ''Failed to read from staging file''
                       (logInfo fh w1 [Operation \<mapsto> OpVal operation, Error \<mapsto> ErrVal e])]
               else [])))"
  by (subst copyLoop.simps) simp

lemma copyLoop_Return:
  "hRead blen w = Ret ((nr, b, None), w1) \<Longrightarrow> writerWrite wr b w1 = ((nw, Some e), w2) \<Longrightarrow>
   copyLoop operation fh wr blen written w logs =
     Some (Ret (Return e, written, snd (writerClose w2),
       logs @ [logerror ''Failed to write to DFS''
                 (logInfo fh w2 [Operation \<mapsto> OpVal operation, Error \<mapsto> ErrVal e])]))"
  by (subst copyLoop.simps) (simp split: prod.splits)

lemma copyLoop_again:
  "hRead blen w = Ret ((nr, b, None), w1) \<Longrightarrow> writerWrite wr b w1 = ((nw, None), w2) \<Longrightarrow>
   copyLoop operation fh wr blen written w logs =
     copyLoop operation fh wr nr (written + int nw) w2
       (logs @ [logtrace ''Written to DFS''
                  (logInfo fh w2 [Operation \<mapsto> OpVal operation, Bytes \<mapsto> IntVal (int nw)])])"
  by (subst copyLoop.simps) simp


text \<open>The four ways one round of the loop can go.\<close>

lemma copyLoop_round:
  obtains (panic) "hRead blen w = Panic"
  | (break) nr b e w1 where "hRead blen w = Ret ((nr, b, Some e), w1)"
  | (return) nr b w1 nw e w2 where "hRead blen w = Ret ((nr, b, None), w1)"
      "writerWrite wr b w1 = ((nw, Some e), w2)"
  | (again) nr b w1 nw w2 where "hRead blen w = Ret ((nr, b, None), w1)"
      "writerWrite wr b w1 = ((nw, None), w2)"
proof (cases "hRead blen w")
  case Panic
  then show ?thesis by (rule panic)
next
  case (Ret x)
  obtain nr b err w1 where x: "x = ((nr, b, err), w1)" by (cases x) auto
  show ?thesis
  proof (cases err)
    case (Some e)
    with Ret x show ?thesis by (auto intro: break)
  next
    case None
    obtain nw werr w2 where ww: "writerWrite wr b w1 = ((nw, werr), w2)"
      by (cases "writerWrite wr b w1") auto
    show ?thesis
    proof (cases werr)
      case None
      with Ret x \<open>err = None\<close> ww show ?thesis by (auto intro: again)
    next
      case (Some e)
      with Ret x \<open>err = None\<close> ww show ?thesis by (auto intro: return)
    qed
  qed
qed

lemma copyLoop_calls:
  assumes "0 < blen"
  shows "copyLoop operation fh wr blen written w logs = Some (Ret (ex, written', w', logs')) \<Longrightarrow>
         \<exists>cs. calls w' = calls w @ cs"
  using assms
proof (induction blen written w arbitrary: logs rule: copyLoop_induct [where wr = wr])
  case (step blen written w)
  show ?case
  proof (cases rule: copyLoop_round [where blen = blen and w = w and wr = wr])
    case panic
    from copyLoop_Panic [OF panic] step.prems show ?thesis by simp
  next
    case (break nr b e w1)
    from copyLoop_Break [OF break] step.prems have "w' = w1" by simp
    with hRead_calls [OF break] show ?thesis by simp
  next
    case (return nr b w1 nw e w2)
    from copyLoop_Return [OF return] step.prems have "w' = snd (writerClose w2)" by simp
    with writerClose_calls [of w2] writerWrite_calls [of wr b w1] return(2) hRead_calls [OF return(1)]
    show ?thesis by simp
  next
    case (again nr b w1 nw w2)
    from copyLoop_again [OF again] step.prems
    have "copyLoop operation fh wr nr (written + int nw) w2
            (logs @ [logtrace ''Written to DFS''
                  (logInfo fh w2 [Operation \<mapsto> OpVal operation, Bytes \<mapsto> IntVal (int nw)])])
          = Some (Ret (ex, written', w', logs'))" by simp
    from step.IH [OF again this] obtain cs where "calls w' = calls w2 @ cs" by blast
    with writerWrite_calls [of wr b w1] again(2) hRead_calls [OF again(1)]
    show ?thesis by simp
  qed
qed

lemma copyLoop_fault_free:
  assumes "0 < blen"
  shows "handle (File w) = Some h \<Longrightarrow> \<forall>f\<in>set (stagingFaults w). f = None \<Longrightarrow>
         remote w wr = Some c \<Longrightarrow>
         copyLoop operation fh wr blen written w logs = Some (Ret (Break, written', w', logs')) \<Longrightarrow>
         calls w' = calls w @ map WriterWrite (chunks blen (drop (position h) (content h))) \<and>
         remote w' wr = Some (c @ drop (position h) (content h)) \<and>
         written' = written + int (length (drop (position h) (content h)))"
  using assms
proof (induction blen written w arbitrary: h c logs rule: copyLoop_induct [where wr = wr])
  case (step blen written w)
  note nofault = nextFault_none [OF step.prems(2)]
  show ?case
  proof (cases rule: copyLoop_round [where blen = blen and w = w and wr = wr])
    case panic
    from copyLoop_Panic [OF panic] step.prems(4) show ?thesis by simp
  next
    case (break nr b e w1)
    from hRead_Break [OF break nofault] step.prems(1)
    have e: "w1 = w\<lparr>stagingFaults := snd (nextFault (stagingFaults w))\<rparr>"
      and d: "drop (position h) (content h) = []" by auto
    from copyLoop_Break [OF break] step.prems(4) have "w' = w1" "written' = written" by simp_all
    with e d step.prems(3) show ?thesis by simp
  next
    case (return nr b w1 nw e w2)
    from copyLoop_Return [OF return] step.prems(4) show ?thesis by simp
  next
    case (again nr b w1 nw w2)
    from hRead_ok [OF again(1) step.hyps] step.prems(1)
    have h: "position h < length (content h)" "b = take blen (drop (position h) (content h))"
      "nr = length b" "0 < nr"
      "w1 = setHandle (h\<lparr>position := position h + nr\<rparr>)
              (w\<lparr>stagingFaults := snd (nextFault (stagingFaults w))\<rparr>)"
      by auto
    from writerWrite_ok [OF again(2)]
    have ww: "nw = length b" "File w2 = File w1" "calls w2 = calls w1 @ [WriterWrite b]"
      "remote w2 = (remote w1)(wr \<mapsto> (case remote w1 wr of None \<Rightarrow> [] | Some c \<Rightarrow> c) @ b)"
      "stagingFaults w2 = stagingFaults w1"
      by simp_all
    let ?h = "h\<lparr>position := position h + nr\<rparr>"
    have p1: "handle (File w2) = Some ?h" using ww(2) h(5) by (simp add: setHandle_def)
    have p2: "\<forall>f\<in>set (stagingFaults w2). f = None"
      using ww(5) h(5) step.prems(2) nextFault_set [of "stagingFaults w"]
      by (auto simp: setHandle_def)
    have p3: "remote w2 wr = Some (c @ b)"
      using ww(4) h(5) step.prems(3) by (simp add: setHandle_def)
    have p4: "copyLoop operation fh wr nr (written + int nw) w2
                (logs @ [logtrace ''Written to DFS''
                  (logInfo fh w2 [Operation \<mapsto> OpVal operation, Bytes \<mapsto> IntVal (int nw)])])
              = Some (Ret (Break, written', w', logs'))"
      using copyLoop_again [OF again] step.prems(4) by simp
    from step.IH [OF again p1 p2 p3 p4]
    have ih: "calls w' = calls w2 @ map WriterWrite (chunks nr (drop (position ?h) (content ?h)))"
      "remote w' wr = Some ((c @ b) @ drop (position ?h) (content ?h))"
      "written' = written + int nw + int (length (drop (position ?h) (content ?h)))"
      by simp_all
    let ?d = "drop (position h) (content h)"
    have d: "?d \<noteq> []" using h(1) by simp
    have dd: "drop (position ?h) (content ?h) = drop nr ?d"
      by (simp add: add.commute)
    have ch: "chunks blen ?d = b # chunks nr (drop nr ?d)"
      using chunks_Cons [OF step.hyps d] chunks_shrink [OF step.hyps, of ?d] h(2,3) by simp
    have bd: "b @ drop nr ?d = ?d" using h(2,3) take_drop_length_take [of blen ?d] by simp
    have c1: "calls w2 = calls w @ [WriterWrite b]" using ww(3) h(5) by (simp add: setHandle_def)
    have len: "length ?d = length b + length (drop nr ?d)"
      using bd by (metis length_append)
    have r1: "calls w' = calls w @ map WriterWrite (chunks blen ?d)"
      using ih(1) dd ch c1 by simp
    have r2: "remote w' wr = Some (c @ ?d)"
      using ih(2) dd bd by simp
    have r3: "written' = written + int (length ?d)"
      using ih(3) dd len ww(1) by simp
    show ?thesis using r1 r2 r3 by simp
  qed
qed

lemma copyLoop_same:
  assumes "0 < blen"
  shows "map_option (map_exec (\<lambda>(ex, n, w', l). (ex, n, w'))) (copyLoop op1 fh wr blen written w l1) =
         map_option (map_exec (\<lambda>(ex, n, w', l). (ex, n, w'))) (copyLoop op2 fh wr blen written w l2)"
  using assms
proof (induction blen written w arbitrary: l1 l2 rule: copyLoop_induct [where wr = wr])
  case (step blen written w)
  show ?case
  proof (cases rule: copyLoop_round [where blen = blen and w = w and wr = wr])
    case panic
    then show ?thesis by (simp add: copyLoop_Panic)
  next
    case (break nr b e w1)
    then show ?thesis by (simp add: copyLoop_Break)
  next
    case (return nr b w1 nw e w2)
    then show ?thesis by (simp add: copyLoop_Return)
  next
    case (again nr b w1 nw w2)
    then show ?thesis using step.IH [OF again] by (simp add: copyLoop_again)
  qed
qed


text \<open>What no call of a flush changes: the path, the mode and the contents of the staging
  file; and no fault is added to those the staging file will meet.\<close>

lemma sameFile_refl [simp]: "sameFile w w"
  by (simp add: sameFile_def)

lemma sameFile_trans: "sameFile w w1 \<Longrightarrow> sameFile w1 w2 \<Longrightarrow> sameFile w w2"
  by (auto simp: sameFile_def)

lemma hRead_sameFile:
  assumes "hRead blen w = Ret (r, w1)"
  shows "sameFile w w1"
proof -
  obtain f fs where nf: "nextFault (stagingFaults w) = (f, fs)"
    by (cases "nextFault (stagingFaults w)")
  with nextFault_set [of "stagingFaults w"] have "set fs \<subseteq> set (stagingFaults w)" by simp
  with assms nf show ?thesis
    by (cases "handle (File w)"; cases f)
       (auto simp: hRead_def Let_def setHandle_def sameFile_def split: if_splits)
qed

lemma hSeekToStart_sameFile:
  assumes "hSeekToStart w = Ret (r, w1)"
  shows "sameFile w w1"
proof -
  obtain f fs where nf: "nextFault (stagingFaults w) = (f, fs)"
    by (cases "nextFault (stagingFaults w)")
  with nextFault_set [of "stagingFaults w"] have "set fs \<subseteq> set (stagingFaults w)" by simp
  with assms nf show ?thesis
    by (cases "handle (File w)"; cases f)
       (auto simp: hSeekToStart_def setHandle_def sameFile_def)
qed

lemma writerWrite_sameFile: "sameFile w (snd (writerWrite wr b w))"
  by (cases "nextFault (remoteFaults w)"; cases "fst (nextFault (remoteFaults w))")
     (auto simp: writerWrite_def Let_def sameFile_def)

lemma writerClose_sameFile: "sameFile w (snd (writerClose w))"
  by (simp add: writerClose_eq sameFile_def)

lemma CreateFile_sameFile: "sameFile w (snd (CreateFile p m ov w))"
  by (cases "nextFault (remoteFaults w)"; cases "fst (nextFault (remoteFaults w))")
     (auto simp: CreateFile_def Let_def sameFile_def)

lemma connectorClose_sameFile: "sameFile w (connectorClose w)"
  by (simp add: connectorClose_def sameFile_def)

lemma copyLoop_sameFile:
  assumes "0 < blen"
  shows "copyLoop operation fh wr blen written w logs = Some (Ret (ex, written', w', logs')) \<Longrightarrow>
         sameFile w w'"
  using assms
proof (induction blen written w arbitrary: logs rule: copyLoop_induct [where wr = wr])
  case (step blen written w)
  show ?case
  proof (cases rule: copyLoop_round [where blen = blen and w = w and wr = wr])
    case panic
    from copyLoop_Panic [OF panic] step.prems show ?thesis by simp
  next
    case (break nr b e w1)
    from copyLoop_Break [OF break] step.prems have "w' = w1" by simp
    with hRead_sameFile [OF break] show ?thesis by simp
  next
    case (return nr b w1 nw e w2)
    from copyLoop_Return [OF return] step.prems have "w' = snd (writerClose w2)" by simp
    with writerClose_sameFile [of w2] writerWrite_sameFile [of w1 wr b] return(2)
      hRead_sameFile [OF return(1)]
    show ?thesis by (auto intro: sameFile_trans)
  next
    case (again nr b w1 nw w2)
    from copyLoop_again [OF again] step.prems
    have "copyLoop operation fh wr nr (written + int nw) w2
            (logs @ [logtrace ''Written to DFS''
                  (logInfo fh w2 [Operation \<mapsto> OpVal operation, Bytes \<mapsto> IntVal (int nw)])])
          = Some (Ret (ex, written', w', logs'))" by simp
    from step.IH [OF again this] have "sameFile w2 w'" .
    with writerWrite_sameFile [of w1 wr b] again(2) hRead_sameFile [OF again(1)]
    show ?thesis by (auto intro: sameFile_trans)
  qed
qed


subsection \<open>FlushAttempt\<close>

lemma FlushAttempt_terminates: "\<exists>r. FlushAttempt operation fh w = Some r"
proof -
  let ?p = "AbsolutePath (File w)" and ?m = "Mode (File w)"
  obtain cerr w1 where cf: "CreateFile ?p ?m True w = (cerr, w1)"
    by (cases "CreateFile ?p ?m True w")
  show ?thesis
  proof (cases cerr)
    case (Some e)
    with cf show ?thesis by (simp add: FlushAttempt_def)
  next
    case None
    show ?thesis
    proof (cases "hSeekToStart w1")
      case Panic
      with cf None show ?thesis by (simp add: FlushAttempt_def)
    next
      case (Ret x)
      obtain serr w2 where x: "x = (serr, w2)" by (cases x)
      obtain r where r: "copyLoop operation fh ?p 65536 0 w2 [] = Some r"
        using copyLoop_terminates [of 65536 operation fh ?p 0 w2 "[]"] by auto
      from cf None Ret x r show ?thesis
        by (cases serr; cases r)
           (auto simp: FlushAttempt_def split: prod.splits loopexit.splits option.splits)
    qed
  qed
qed

lemma FlushAttempt_calls:
  assumes "FlushAttempt operation fh w = Some (Ret (err, w', logs))"
  shows "\<exists>cs. calls w' = calls w @ CreateFileCall (AbsolutePath (File w)) (Mode (File w)) True # cs"
proof -
  let ?p = "AbsolutePath (File w)" and ?m = "Mode (File w)"
  obtain cerr w1 where cf: "CreateFile ?p ?m True w = (cerr, w1)"
    by (cases "CreateFile ?p ?m True w")
  note c = CreateFile_overwrite [OF cf]
  show ?thesis
  proof (cases cerr)
    case (Some e)
    with cf assms have "w' = w1" by (simp add: FlushAttempt_def)
    with c show ?thesis by simp
  next
    case None
    show ?thesis
    proof (cases "hSeekToStart w1")
      case Panic
      with cf None assms show ?thesis by (simp add: FlushAttempt_def)
    next
      case (Ret x)
      obtain serr w2 where x: "x = (serr, w2)" by (cases x)
      from hSeekToStart_calls Ret x have c2: "calls w2 = calls w1" by blast
      show ?thesis
      proof (cases serr)
        case (Some e)
        with cf \<open>cerr = None\<close> Ret x assms have "w' = w2" by (simp add: FlushAttempt_def)
        with c c2 show ?thesis by simp
      next
        case None
        obtain r where lp: "copyLoop operation fh ?p 65536 0 w2 [] = Some r"
          using copyLoop_terminates [of 65536 operation fh ?p 0 w2 "[]"] by auto
        show ?thesis
        proof (cases r)
          case Panic
          with lp cf \<open>cerr = None\<close> \<open>hSeekToStart w1 = Ret x\<close> x None assms show ?thesis
            by (simp add: FlushAttempt_def)
        next
          case (Ret y)
          obtain ex written w3 logs3 where y: "y = (ex, written, w3, logs3)" by (cases y) auto
          from copyLoop_calls [of 65536 operation fh ?p 0 w2 "[]" ex written w3 logs3] lp Ret y
          obtain cs where cs: "calls w3 = calls w2 @ cs" by auto
          show ?thesis
          proof (cases ex)
            case (Return e)
            with lp Ret y cf \<open>cerr = None\<close> \<open>hSeekToStart w1 = Ret x\<close> x None assms
            have "w' = w3" by (simp add: FlushAttempt_def)
            with cs c c2 show ?thesis by simp
          next
            case Break
            with lp Ret y cf \<open>cerr = None\<close> \<open>hSeekToStart w1 = Ret x\<close> x None assms
            have "w' = snd (writerClose w3)"
              by (cases "writerClose w3"; cases "fst (writerClose w3)") (simp_all add: FlushAttempt_def)
            with cs c c2 writerClose_calls [of w3] show ?thesis by simp
          qed
        qed
      qed
    qed
  qed
qed

lemma FlushAttempt_fault_free:
  assumes "handle (File w) = Some h" and "\<forall>f\<in>set (stagingFaults w). f = None"
    and "FlushAttempt operation fh w = Some (Ret (err, w', logs))"
  shows "err = None \<longrightarrow>
            calls w' = calls w @ CreateFileCall (AbsolutePath (File w)) (Mode (File w)) True
                         # map WriterWrite (chunks 65536 (content h)) @ [WriterClose] \<and>
            remote w' (AbsolutePath (File w)) = Some (content h) \<and>
            last logs = loginfo ''Uploaded to DFS''
                          (logInfo fh w' [Operation \<mapsto> OpVal operation,
                                          Bytes \<mapsto> IntVal (int (length (content h)))])"
proof -
  let ?p = "AbsolutePath (File w)" and ?m = "Mode (File w)"
  obtain cerr w1 where cf: "CreateFile ?p ?m True w = (cerr, w1)"
    by (cases "CreateFile ?p ?m True w")
  note c = CreateFile_overwrite [OF cf]
  show ?thesis
  proof (cases cerr)
    case (Some e)
    with cf assms(3) have "err = Some e" "w' = w1" by (simp_all add: FlushAttempt_def)
    with c show ?thesis by simp
  next
    case None
    have h1: "handle (File w1) = Some h" using c assms(1) by simp
    have nf1: "\<forall>f\<in>set (stagingFaults w1). f = None" using c assms(2) by simp
    let ?w2 = "setHandle (h\<lparr>position := 0\<rparr>) (w1\<lparr>stagingFaults := snd (nextFault (stagingFaults w1))\<rparr>)"
    have sk: "hSeekToStart w1 = Ret (None, ?w2)"
      by (rule hSeekToStart_ok [OF h1 nextFault_none [OF nf1]])
    have h2: "handle (File ?w2) = Some (h\<lparr>position := 0\<rparr>)" by (simp add: setHandle_def)
    have nf2: "\<forall>f\<in>set (stagingFaults ?w2). f = None"
      using nf1 nextFault_set [of "stagingFaults w1"] by (auto simp: setHandle_def)
    have r2: "remote ?w2 ?p = Some []" using c None by (simp add: setHandle_def)
    have c2: "calls ?w2 = calls w @ [CreateFileCall ?p ?m True]" using c by (simp add: setHandle_def)
    obtain r where lp: "copyLoop operation fh ?p 65536 0 ?w2 [] = Some r"
      using copyLoop_terminates [of 65536 operation fh ?p 0 ?w2 "[]"] by auto
    have fa: "FlushAttempt operation fh w =
                (case r of
                   Panic \<Rightarrow> Some Panic
                 | Ret (Return e, written, w3, logs) \<Rightarrow> Some (Ret (Some e, w3, logs))
                 | Ret (Break, written, w3, logs) \<Rightarrow>
                    (case writerClose w3 of
                       (Some e, w4) \<Rightarrow>
                         Some (Ret (Some e, w4,
                           logs @ [logerror ''Failed to close file in DFS''
                                     (logInfo fh w4 [Operation \<mapsto> OpVal operation, Error \<mapsto> ErrVal e])]))
                     | (None, w4) \<Rightarrow>
                         Some (Ret (None, w4,
                           logs @ [loginfo ''Uploaded to DFS''
                                     (logInfo fh w4
                                        [Operation \<mapsto> OpVal operation, Bytes \<mapsto> IntVal written])]))))"
      using cf None sk lp by (simp add: FlushAttempt_def)
    show ?thesis
    proof (cases r)
      case Panic
      with fa assms(3) show ?thesis by simp
    next
      case (Ret x)
      obtain ex written w3 logs3 where x: "x = (ex, written, w3, logs3)" by (cases x) auto
      from copyLoop_calls [of 65536 operation fh ?p 0 ?w2 "[]" ex written w3 logs3] lp Ret x
      obtain cs where cs: "calls w3 = calls ?w2 @ cs" by auto
      show ?thesis
      proof (cases ex)
        case (Return e)
        with fa Ret x assms(3) have "err = Some e" "w' = w3" by simp_all
        with cs c2 show ?thesis by simp
      next
        case Break
        from copyLoop_fault_free [of 65536 ?w2 "h\<lparr>position := 0\<rparr>" ?p "[]" operation fh 0 "[]" written w3 logs3]
          h2 nf2 r2 lp Ret x Break
        have ff: "calls w3 = calls ?w2 @ map WriterWrite (chunks 65536 (content h))"
          "remote w3 ?p = Some (content h)" "written = int (length (content h))"
          by simp_all
        let ?w4 = "w3\<lparr>remoteFaults := snd (nextFault (remoteFaults w3)), calls := calls w3 @ [WriterClose]\<rparr>"
        show ?thesis
        proof (cases "fst (nextFault (remoteFaults w3))")
          case None
          with fa Ret x Break assms(3) writerClose_eq [of w3]
          have "err = None" "w' = ?w4"
            "logs = logs3 @ [loginfo ''Uploaded to DFS''
                    (logInfo fh ?w4 [Operation \<mapsto> OpVal operation, Bytes \<mapsto> IntVal written])]"
            by simp_all
          with ff c2 show ?thesis by simp
        next
          case (Some e)
          with fa Ret x Break assms(3) writerClose_eq [of w3]
          have "err = Some e" "w' = ?w4" by simp_all
          with ff c2 show ?thesis by simp
        qed
      qed
    qed
  qed
qed

lemma FlushAttempt_sameFile:
  assumes "FlushAttempt operation fh w = Some (Ret (err, w', logs))"
  shows "sameFile w w'"
proof -
  let ?p = "AbsolutePath (File w)" and ?m = "Mode (File w)"
  obtain cerr w1 where cf: "CreateFile ?p ?m True w = (cerr, w1)"
    by (cases "CreateFile ?p ?m True w")
  from CreateFile_sameFile [of w ?p ?m True] cf have s1: "sameFile w w1" by simp
  show ?thesis
  proof (cases cerr)
    case (Some e)
    with cf assms have "w' = w1" by (simp add: FlushAttempt_def)
    with s1 show ?thesis by simp
  next
    case None
    show ?thesis
    proof (cases "hSeekToStart w1")
      case Panic
      with cf None assms show ?thesis by (simp add: FlushAttempt_def)
    next
      case (Ret x)
      obtain serr w2 where x: "x = (serr, w2)" by (cases x)
      from hSeekToStart_sameFile Ret x s1 have s2: "sameFile w w2" by (blast intro: sameFile_trans)
      show ?thesis
      proof (cases serr)
        case (Some e)
        with cf \<open>cerr = None\<close> Ret x assms have "w' = w2" by (simp add: FlushAttempt_def)
        with s2 show ?thesis by simp
      next
        case None
        obtain r where lp: "copyLoop operation fh ?p 65536 0 w2 [] = Some r"
          using copyLoop_terminates [of 65536 operation fh ?p 0 w2 "[]"] by auto
        show ?thesis
        proof (cases r)
          case Panic
          with lp cf \<open>cerr = None\<close> \<open>hSeekToStart w1 = Ret x\<close> x None assms show ?thesis
            by (simp add: FlushAttempt_def)
        next
          case (Ret y)
          obtain ex written w3 logs3 where y: "y = (ex, written, w3, logs3)" by (cases y) auto
          from copyLoop_sameFile [of 65536 operation fh ?p 0 w2 "[]" ex written w3 logs3] lp Ret y s2
          have s3: "sameFile w w3" by (auto intro: sameFile_trans)
          show ?thesis
          proof (cases ex)
            case (Return e)
            with lp Ret y cf \<open>cerr = None\<close> \<open>hSeekToStart w1 = Ret x\<close> x None assms
            have "w' = w3" by (simp add: FlushAttempt_def)
            with s3 show ?thesis by simp
          next
            case Break
            with lp Ret y cf \<open>cerr = None\<close> \<open>hSeekToStart w1 = Ret x\<close> x None assms
            have "w' = snd (writerClose w3)"
              by (cases "writerClose w3"; cases "fst (writerClose w3)") (simp_all add: FlushAttempt_def)
            with s3 writerClose_sameFile [of w3] show ?thesis by (auto intro: sameFile_trans)
          qed
        qed
      qed
    qed
  qed
qed

lemma FlushAttempt_same: "unlogged (FlushAttempt op1 fh w) = unlogged (FlushAttempt op2 fh w)"
proof -
  let ?p = "AbsolutePath (File w)" and ?m = "Mode (File w)"
  obtain cerr w1 where cf: "CreateFile ?p ?m True w = (cerr, w1)"
    by (cases "CreateFile ?p ?m True w")
  show ?thesis
  proof (cases cerr)
    case (Some e)
    with cf show ?thesis by (simp add: FlushAttempt_def unlogged_def)
  next
    case None
    show ?thesis
    proof (cases "hSeekToStart w1")
      case Panic
      with cf None show ?thesis by (simp add: FlushAttempt_def unlogged_def)
    next
      case (Ret x)
      obtain serr w2 where x: "x = (serr, w2)" by (cases x)
      show ?thesis
      proof (cases serr)
        case (Some e)
        with cf \<open>cerr = None\<close> Ret x show ?thesis by (simp add: FlushAttempt_def unlogged_def)
      next
        case None
        let ?r1 = "copyLoop op1 fh ?p 65536 0 w2 []" and ?r2 = "copyLoop op2 fh ?p 65536 0 w2 []"
        have eq: "map_option (map_exec (\<lambda>(ex, n, w', l). (ex, n, w'))) ?r1 =
                  map_option (map_exec (\<lambda>(ex, n, w', l). (ex, n, w'))) ?r2"
          by (rule copyLoop_same) simp
        show ?thesis
        proof (cases ?r1)
          case None
          with eq have "?r2 = None" by simp
          with None cf \<open>cerr = None\<close> Ret x \<open>serr = None\<close> show ?thesis
            by (simp add: FlushAttempt_def unlogged_def)
        next
          case (Some e1)
          with eq obtain e2 where e2: "?r2 = Some e2"
            "map_exec (\<lambda>(ex, n, w', l). (ex, n, w')) e1 = map_exec (\<lambda>(ex, n, w', l). (ex, n, w')) e2"
            by (cases ?r2) auto
          show ?thesis
          proof (cases e1)
            case Panic
            with e2 have "e2 = Panic" by (cases e2) auto
            with Panic Some e2 cf \<open>cerr = None\<close> Ret x \<open>serr = None\<close> show ?thesis
              by (simp add: FlushAttempt_def unlogged_def)
          next
            case (Ret y)
            obtain ex n w3 la where y: "y = (ex, n, w3, la)" by (cases y) auto
            with Ret e2 obtain lb where "e2 = Ret (ex, n, w3, lb)" by (cases e2) auto
            with Ret y Some e2 cf \<open>cerr = None\<close> \<open>hSeekToStart w1 = Ret x\<close> x \<open>serr = None\<close> show ?thesis
              by (cases ex; cases "writerClose w3"; cases "fst (writerClose w3)")
                 (simp_all add: FlushAttempt_def unlogged_def)
          qed
        qed
      qed
    qed
  qed
qed

lemma FlushAttempt_same_cases:
  obtains (none) "FlushAttempt op1 fh w = None" "FlushAttempt op2 fh w = None"
  | (panic) "FlushAttempt op1 fh w = Some Panic" "FlushAttempt op2 fh w = Some Panic"
  | (ret) err w1 la lb where "FlushAttempt op1 fh w = Some (Ret (err, w1, la))"
      "FlushAttempt op2 fh w = Some (Ret (err, w1, lb))"
proof -
  note eq = FlushAttempt_same [of op1 fh w op2]
  show ?thesis
  proof (cases "FlushAttempt op1 fh w")
    case None
    with eq have "FlushAttempt op2 fh w = None" by (simp add: unlogged_def)
    with None show ?thesis by (rule none)
  next
    case (Some e1)
    with eq obtain e2 where e2: "FlushAttempt op2 fh w = Some e2"
      "map_exec (\<lambda>(err, w, logs). (err, w)) e1 = map_exec (\<lambda>(err, w, logs). (err, w)) e2"
      by (cases "FlushAttempt op2 fh w") (auto simp: unlogged_def)
    show ?thesis
    proof (cases e1)
      case Panic
      with e2 have "e2 = Panic" by (cases e2) auto
      with Panic Some e2 show ?thesis by (auto intro: panic)
    next
      case (Ret y)
      obtain err w1 la where y: "y = (err, w1, la)" by (cases y) auto
      with Ret e2 obtain lb where "e2 = Ret (err, w1, lb)" by (cases e2) auto
      with Ret y Some e2 show ?thesis by (auto intro: ret)
    qed
  qed
qed



text \<open>
  C5, as amended. Every flush attempt that returns has first called
  \<open>create(path, mode, overwrite = true)\<close>. Where the staging file is open and none of
  its calls fails, an attempt that returns success has, after the create, written the
  staging file from its start in chunks of 64 KiB (the last one holding what is left)
  and closed the writer: the bytes delivered are the staging file's contents, the remote
  file holds them, and the byte count it logs is the staging file's size. An attempt
  that returns an error need not have delivered anything.
\<close>

theorem FlushAttempt_streams_staging:
  assumes "FlushAttempt operation fh w = Some (Ret (err, w', logs))"
  shows "(\<exists>cs. calls w' = calls w @ CreateFileCall (AbsolutePath (File w)) (Mode (File w)) True # cs) \<and>
         (err = None \<and> handle (File w) = Some h \<and> (\<forall>f\<in>set (stagingFaults w). f = None) \<longrightarrow>
            calls w' = calls w @ CreateFileCall (AbsolutePath (File w)) (Mode (File w)) True
                         # map WriterWrite (chunks 65536 (content h)) @ [WriterClose] \<and>
            delivered (calls w') = delivered (calls w) @ content h \<and>
            remote w' (AbsolutePath (File w)) = Some (content h) \<and>
            last logs = loginfo ''Uploaded to DFS''
                          (logInfo fh w' [Operation \<mapsto> OpVal operation,
                                          Bytes \<mapsto> IntVal (int (length (content h)))]))"
proof -
  have d: "delivered (calls w @ CreateFileCall p m True # map WriterWrite (chunks 65536 (content h))
              @ [WriterClose]) = delivered (calls w) @ content h" for p m
    by (simp add: delivered_append delivered_chunks concat_chunks)
  have "calls w' = calls w @ CreateFileCall (AbsolutePath (File w)) (Mode (File w)) True
                         # map WriterWrite (chunks 65536 (content h)) @ [WriterClose] \<and>
        delivered (calls w') = delivered (calls w) @ content h \<and>
        remote w' (AbsolutePath (File w)) = Some (content h) \<and>
        last logs = loginfo ''Uploaded to DFS''
                          (logInfo fh w' [Operation \<mapsto> OpVal operation,
                                          Bytes \<mapsto> IntVal (int (length (content h)))])"
    if "err = None" "handle (File w) = Some h" "\<forall>f\<in>set (stagingFaults w). f = None"
    using FlushAttempt_fault_free [OF that(2,3) assms] that(1) d by simp
  with FlushAttempt_calls [OF assms] show ?thesis by blast
qed

theorem FlushAttempt_streams_staging_witness:
  "\<exists>w' logs. FlushAttempt OpFlush fh1 world0 = Some (Ret (None, w', logs)) \<and>
      calls w' = [CreateFileCall ''/f'' 420 True, WriterWrite [1, 2, 3], WriterClose] \<and>
      delivered (calls w') = [1, 2, 3] \<and>
      remote w' ''/f'' = Some [1, 2, 3]"
proof -
  have a: "handle (File world0) = Some staging0" "\<forall>f\<in>set (stagingFaults world0). f = None"
    by (simp_all add: world_simps)
  have "\<exists>w' logs. FlushAttempt OpFlush fh1 world0 = Some (Ret (None, w', logs))"
    by (simp add: run_simps world_simps)
  then obtain w' logs where r: "FlushAttempt OpFlush fh1 world0 = Some (Ret (None, w', logs))"
    by blast
  have ch: "chunks 65536 (content staging0) = [[1, 2, 3]]"
    by (simp add: chunks_Cons staging0_def)
  from FlushAttempt_streams_staging [OF r, of staging0] a ch
  have "calls w' = [CreateFileCall ''/f'' 420 True, WriterWrite [1, 2, 3], WriterClose] \<and>
      delivered (calls w') = [1, 2, 3] \<and>
      remote w' ''/f'' = Some [1, 2, 3]"
    by (simp add: world_simps)
  with r show ?thesis by blast
qed


text \<open>
  C5 as stated fails: an attempt whose create is refused makes no further call and
  delivers none of the three bytes of the staging file.
\<close>

theorem FlushAttempt_counterexample:
  "map_option (map_exec (\<lambda>(err, w', logs). (err, calls w', length (delivered (calls w')))))
     (FlushAttempt OpFlush fh1 worldReset)
     = Some (Ret (Some (Errno 104), [CreateFileCall ''/f'' 420 True], 0)) \<and>
   map_option (length \<circ> content) (handle (File worldReset)) = Some 3"
  by (simp add: run_simps world_simps)


subsection \<open>The retries of copyToDFS\<close>

lemma copyToDFS_loop_terminates: "\<exists>r. copyToDFS_loop nr operation fh rop w logs = Some r"
proof (induction nr operation fh rop w logs rule: copyToDFS_loop.induct)
  case (1 nr operation fh rop w logs)
  from FlushAttempt_terminates obtain r where r: "FlushAttempt operation fh w = Some r" by blast
  show ?case
  proof (cases r)
    case Panic
    with r show ?thesis by (simp add: copyToDFS_loop.simps [of nr operation fh rop w])
  next
    case (Ret y)
    obtain err w1 ls where y: "y = (err, w1, ls)" by (cases y) auto
    show ?thesis
    proof (cases "err \<noteq> Some EOF \<or> nr err \<or> \<not> fst (ShouldRetry nr rop err)")
      case True
      with r Ret y show ?thesis by (simp add: copyToDFS_loop.simps [of nr operation fh rop w])
    next
      case False
      from "1.IH" [OF r Ret y [symmetric] refl False] False r Ret y show ?thesis
        by (simp add: copyToDFS_loop.simps [of nr operation fh rop w])
    qed
  qed
qed

lemma copyToDFS_loop_calls:
  "copyToDFS_loop nr operation fh rop w logs = Some (Ret (err, w', logs')) \<Longrightarrow>
   \<exists>cs. calls w' = calls w @ CreateFileCall (AbsolutePath (File w)) (Mode (File w)) True # cs"
proof (induction nr operation fh rop w logs rule: copyToDFS_loop.induct)
  case (1 nr operation fh rop w logs)
  from FlushAttempt_terminates obtain r where r: "FlushAttempt operation fh w = Some r" by blast
  show ?case
  proof (cases r)
    case Panic
    with r "1.prems" show ?thesis by (simp add: copyToDFS_loop.simps [of nr operation fh rop w])
  next
    case (Ret y)
    obtain e1 w1 ls where y: "y = (e1, w1, ls)" by (cases y) auto
    from FlushAttempt_calls r Ret y obtain cs1 where
      cs1: "calls w1 = calls w @ CreateFileCall (AbsolutePath (File w)) (Mode (File w)) True # cs1"
      by blast
    show ?thesis
    proof (cases "e1 \<noteq> Some EOF \<or> nr e1 \<or> \<not> fst (ShouldRetry nr rop e1)")
      case True
      with r Ret y "1.prems" have "w' = w1"
        by (simp add: copyToDFS_loop.simps [of nr operation fh rop w])
      with cs1 show ?thesis by simp
    next
      case False
      with r Ret y "1.prems"
      have "copyToDFS_loop nr operation fh (snd (ShouldRetry nr rop e1)) (connectorClose w1)
              (logs @ ls @ [logwarn ''Failed to copy file to DFS''
                              (logInfo fh w1 [Operation \<mapsto> OpVal operation])])
            = Some (Ret (err, w', logs'))"
        by (simp add: copyToDFS_loop.simps [of nr operation fh rop w])
      from "1.IH" [OF r Ret y [symmetric] refl False this]
      obtain cs2 where "calls w' = calls (connectorClose w1) @ cs2" by blast
      with cs1 show ?thesis by (simp add: connectorClose_def)
    qed
  qed
qed

lemma copyToDFS_loop_same:
  "unlogged (copyToDFS_loop nr op1 fh rop w l1) = unlogged (copyToDFS_loop nr op2 fh rop w l2)"
proof (induction nr op1 fh rop w l1 arbitrary: l2 rule: copyToDFS_loop.induct)
  case (1 nr op1 fh rop w l1)
  show ?case
  proof (cases rule: FlushAttempt_same_cases [where ?op1.0 = op1 and ?op2.0 = op2 and fh = fh and w = w])
    case none
    then show ?thesis
      by (simp add: copyToDFS_loop.simps [of nr op1] copyToDFS_loop.simps [of nr op2] unlogged_def)
  next
    case panic
    then show ?thesis
      by (simp add: copyToDFS_loop.simps [of nr op1] copyToDFS_loop.simps [of nr op2] unlogged_def)
  next
    case (ret err w1 la lb)
    show ?thesis
    proof (cases "err \<noteq> Some EOF \<or> nr err \<or> \<not> fst (ShouldRetry nr rop err)")
      case True
      with ret show ?thesis
        by (simp add: copyToDFS_loop.simps [of nr op1] copyToDFS_loop.simps [of nr op2] unlogged_def)
    next
      case False
      from "1.IH" [OF ret(1) refl refl refl False]
      have "unlogged (copyToDFS_loop nr op1 fh (snd (ShouldRetry nr rop err)) (connectorClose w1)
               (l1 @ la @ [logwarn ''Failed to copy file to DFS'' (logInfo fh w1 [Operation \<mapsto> OpVal op1])]))
          = unlogged (copyToDFS_loop nr op2 fh (snd (ShouldRetry nr rop err)) (connectorClose w1)
               (l2 @ lb @ [logwarn ''Failed to copy file to DFS'' (logInfo fh w1 [Operation \<mapsto> OpVal op2])]))"
        by blast
      with False ret show ?thesis
        by (simp add: copyToDFS_loop.simps [of nr op1 fh rop w] copyToDFS_loop.simps [of nr op2 fh rop w])
    qed
  qed
qed


lemma copyToDFS_loop_fault_free:
  "handle (File w) = Some h \<Longrightarrow> \<forall>f\<in>set (stagingFaults w). f = None \<Longrightarrow>
   copyToDFS_loop nr operation fh rop w logs = Some (Ret (None, w', logs')) \<Longrightarrow>
   remote w' (AbsolutePath (File w)) = Some (content h)"
proof (induction nr operation fh rop w logs arbitrary: h rule: copyToDFS_loop.induct)
  case (1 nr operation fh rop w logs)
  from FlushAttempt_terminates obtain r where r: "FlushAttempt operation fh w = Some r" by blast
  show ?case
  proof (cases r)
    case Panic
    with r "1.prems"(3) show ?thesis by (simp add: copyToDFS_loop.simps [of nr operation fh rop w])
  next
    case (Ret y)
    obtain e1 w1 ls where y: "y = (e1, w1, ls)" by (cases y) auto
    with r Ret have fa: "FlushAttempt operation fh w = Some (Ret (e1, w1, ls))" by simp
    show ?thesis
    proof (cases "e1 \<noteq> Some EOF \<or> nr e1 \<or> \<not> fst (ShouldRetry nr rop e1)")
      case True
      with fa "1.prems"(3) have "w' = w1" "e1 = None"
        by (simp_all add: copyToDFS_loop.simps [of nr operation fh rop w])
      with FlushAttempt_fault_free [OF "1.prems"(1,2) fa] show ?thesis by simp
    next
      case False
      with fa "1.prems"(3)
      have rec: "copyToDFS_loop nr operation fh (snd (ShouldRetry nr rop e1)) (connectorClose w1)
              (logs @ ls @ [logwarn ''Failed to copy file to DFS''
                              (logInfo fh w1 [Operation \<mapsto> OpVal operation])])
            = Some (Ret (None, w', logs'))"
        by (simp add: copyToDFS_loop.simps [of nr operation fh rop w])
      from FlushAttempt_sameFile [OF fa] connectorClose_sameFile [of w1]
      have sf: "sameFile w (connectorClose w1)" by (blast intro: sameFile_trans)
      with "1.prems"(1) obtain h' where h': "handle (File (connectorClose w1)) = Some h'"
        "content h' = content h"
        by (auto simp: sameFile_def)
      from sf "1.prems"(2) have nf: "\<forall>f\<in>set (stagingFaults (connectorClose w1)). f = None"
        by (auto simp: sameFile_def)
      from "1.IH" [OF r Ret y [symmetric] refl False h'(1) nf rec] h'(2) sf
      show ?thesis by (simp add: sameFile_def)
    qed
  qed
qed


text \<open>
  C2, as amended. After a flush attempt has returned, \<open>copyToDFS\<close> closes the connector
  and runs the whole attempt again exactly when the attempt's error is \<open>io.EOF\<close>, the
  classification holds it retriable and attempts are left. Every other result (success,
  any other error, retriable or not, or \<open>io.EOF\<close> with no attempt left) is returned as
  the attempt gave it, with no call to the connector.
\<close>

theorem copyToDFS_loop_retries_only_EOF:
  assumes "FlushAttempt operation fh w = Some (Ret (err, w1, ls))"
  shows "copyToDFS_loop nr operation fh rop w logs =
           (if err = Some EOF \<and> \<not> nr (Some EOF) \<and> attempt rop < maxAttempts rop
            then copyToDFS_loop nr operation fh (rop\<lparr>attempt := attempt rop + 1\<rparr>) (connectorClose w1)
                   (logs @ ls @ [logwarn ''Failed to copy file to DFS''
                                   (logInfo fh w1 [Operation \<mapsto> OpVal operation])])
            else Some (Ret (err, w1, logs @ ls)))"
  using assms
  by (subst copyToDFS_loop.simps) (auto simp: ShouldRetry_def)

theorem copyToDFS_loop_retries_only_EOF_witness:
  "FlushAttempt OpFlush fh1 worldEOF =
     Some (Ret (Some EOF,
       world0\<lparr>calls := [CreateFileCall ''/f'' 420 True]\<rparr>,
       [logerror ''Error creating file in DFS''
          (logInfo fh1 world0 [Operation \<mapsto> OpVal OpFlush, Error \<mapsto> ErrVal EOF])])) \<and>
   observe (copyToDFS_loop resetRetriable OpFlush fh1 (StartOperation worldEOF) worldEOF []) =
     Some (Ret (None,
       [CreateFileCall ''/f'' 420 True, ConnectorClose, CreateFileCall ''/f'' 420 True,
        WriterWrite [1, 2, 3], WriterClose], Some [1, 2, 3]))"
proof -
  have a: "FlushAttempt OpFlush fh1 worldEOF =
     Some (Ret (Some EOF,
       world0\<lparr>calls := [CreateFileCall ''/f'' 420 True]\<rparr>,
       [logerror ''Error creating file in DFS''
          (logInfo fh1 world0 [Operation \<mapsto> OpVal OpFlush, Error \<mapsto> ErrVal EOF])]))"
    by (simp add: FlushAttempt_def CreateFile_def Let_def world_simps logInfo_def)
  have b: "observe (copyToDFS_loop resetRetriable OpFlush fh1
              ((StartOperation worldEOF)\<lparr>attempt := attempt (StartOperation worldEOF) + 1\<rparr>)
              (connectorClose (world0\<lparr>calls := [CreateFileCall ''/f'' 420 True]\<rparr>)) ls) =
     Some (Ret (None,
       [CreateFileCall ''/f'' 420 True, ConnectorClose, CreateFileCall ''/f'' 420 True,
        WriterWrite [1, 2, 3], WriterClose], Some [1, 2, 3]))" for ls
    by (simp add: run_simps world_simps)
  from copyToDFS_loop_retries_only_EOF [OF a, of resetRetriable "StartOperation worldEOF" "[]"]
  have "copyToDFS_loop resetRetriable OpFlush fh1 (StartOperation worldEOF) worldEOF [] =
        copyToDFS_loop resetRetriable OpFlush fh1
              ((StartOperation worldEOF)\<lparr>attempt := attempt (StartOperation worldEOF) + 1\<rparr>)
              (connectorClose (world0\<lparr>calls := [CreateFileCall ''/f'' 420 True]\<rparr>))
              ([] @ [logerror ''Error creating file in DFS''
                  (logInfo fh1 world0 [Operation \<mapsto> OpVal OpFlush, Error \<mapsto> ErrVal EOF])] @
                [logwarn ''Failed to copy file to DFS''
                  (logInfo fh1 (world0\<lparr>calls := [CreateFileCall ''/f'' 420 True]\<rparr>) [Operation \<mapsto> OpVal OpFlush])])"
    by (simp add: resetRetriable_def StartOperation_def world_simps)
  with a b show ?thesis by simp
qed


text \<open>
  C2 as stated fails: a connection reset of the create is retriable and nine attempts
  are left, yet \<open>copyToDFS\<close> returns it after the one attempt, the connector untouched.
\<close>

theorem copyToDFS_retry_counterexample:
  "\<not> resetRetriable (Some (Errno 104)) \<and>
   fst (ShouldRetry resetRetriable (StartOperation worldReset) (Some (Errno 104))) \<and>
   observe (FlushAttempt OpFlush fh1 worldReset) =
     Some (Ret (Some (Errno 104), [CreateFileCall ''/f'' 420 True], None)) \<and>
   observe (copyToDFS resetRetriable OpFlush fh1 worldReset) =
     Some (Ret (Some (Errno 104), [CreateFileCall ''/f'' 420 True], None))"
  by (simp add: run_simps world_simps)


text \<open>Where the classification holds \<open>io.EOF\<close> non-retriable, as section 4.B of the spec
  lists it, nothing is ever retried.\<close>

lemma copyToDFS_loop_never_retries:
  assumes "nr (Some EOF)" and "FlushAttempt operation fh w = Some (Ret (err, w1, ls))"
  shows "copyToDFS_loop nr operation fh rop w logs = Some (Ret (err, w1, logs @ ls))"
  using assms by (subst copyToDFS_loop.simps) auto


text \<open>What the loop returns is what its last attempt returned, in the state that attempt
  left.\<close>

lemma copyToDFS_loop_last_attempt:
  "copyToDFS_loop nr operation fh rop w logs = Some (Ret (err, w', logs')) \<Longrightarrow>
   \<exists>w0 ls. FlushAttempt operation fh w0 = Some (Ret (err, w', ls))"
proof (induction nr operation fh rop w logs rule: copyToDFS_loop.induct)
  case (1 nr operation fh rop w logs)
  from FlushAttempt_terminates obtain r where r: "FlushAttempt operation fh w = Some r" by blast
  show ?case
  proof (cases r)
    case Panic
    with r "1.prems" show ?thesis by (simp add: copyToDFS_loop.simps [of nr operation fh rop w])
  next
    case (Ret y)
    obtain e1 w1 ls where y: "y = (e1, w1, ls)" by (cases y) auto
    show ?thesis
    proof (cases "e1 \<noteq> Some EOF \<or> nr e1 \<or> \<not> fst (ShouldRetry nr rop e1)")
      case True
      with r Ret y "1.prems" have "w' = w1" "err = e1"
        by (simp_all add: copyToDFS_loop.simps [of nr operation fh rop w])
      with r Ret y show ?thesis by blast
    next
      case False
      with r Ret y "1.prems"
      have "copyToDFS_loop nr operation fh (snd (ShouldRetry nr rop e1)) (connectorClose w1)
              (logs @ ls @ [logwarn ''Failed to copy file to DFS''
                              (logInfo fh w1 [Operation \<mapsto> OpVal operation])])
            = Some (Ret (err, w', logs'))"
        by (simp add: copyToDFS_loop.simps [of nr operation fh rop w])
      from "1.IH" [OF r Ret y [symmetric] refl False this] show ?thesis .
    qed
  qed
qed


lemma copyToDFS_same:
  "unlogged (copyToDFS nr op1 fh w) = unlogged (copyToDFS nr op2 fh w)"
proof (cases "totalBytesWritten fh = 0")
  case True
  then show ?thesis by (simp add: copyToDFS_def)
next
  case False
  let ?l1 = "[logdebug ''Uploading to DFS''
                   (logInfo fh w [Operation \<mapsto> OpVal OpWrite, Bytes \<mapsto> KeyVal TotalBytesWritten])]"
  let ?r1 = "copyToDFS_loop nr op1 fh (StartOperation w) w ?l1"
  let ?r2 = "copyToDFS_loop nr op2 fh (StartOperation w) w ?l1"
  have eq: "unlogged ?r1 = unlogged ?r2" by (rule copyToDFS_loop_same)
  show ?thesis
  proof (cases ?r1)
    case None
    with eq have "?r2 = None" by (simp add: unlogged_def)
    with None False show ?thesis by (simp add: copyToDFS_def)
  next
    case (Some e1)
    with eq obtain e2 where e2: "?r2 = Some e2"
      "map_exec (\<lambda>(err, w, logs). (err, w)) e1 = map_exec (\<lambda>(err, w, logs). (err, w)) e2"
      by (cases ?r2) (auto simp: unlogged_def)
    show ?thesis
    proof (cases e1)
      case Panic
      with e2 have "e2 = Panic" by (cases e2) auto
      with Panic Some e2 False show ?thesis by (simp add: copyToDFS_def)
    next
      case (Ret y)
      obtain err w1 la where y: "y = (err, w1, la)" by (cases y) auto
      with Ret e2 obtain lb where "e2 = Ret (err, w1, lb)" by (cases e2) auto
      with Ret y Some e2 False show ?thesis by (simp add: copyToDFS_def unlogged_def)
    qed
  qed
qed


subsection \<open>Flush and Fsync\<close>

lemma unlogged_withLog [simp]: "unlogged (withLog l r) = unlogged r"
  by (cases r) (auto simp: unlogged_def withLog_def exec.map_comp comp_def split_def intro!: exec.map_cong)

lemma withLog_Ret:
  "withLog l r = Some (Ret (err, w', logs)) \<Longrightarrow> \<exists>ls. r = Some (Ret (err, w', ls))"
  by (cases r; cases "the r") (auto simp: withLog_def)


text \<open>\<open>Write\<close> never lowers the counter of bytes written: a counter that starts at 0
  is never negative.\<close>

lemma Write_counter_grows:
  assumes "Write fh req w = Ret (err, nw, fh', w', logs)"
  shows "totalBytesWritten fh \<le> totalBytesWritten fh'"
  using assms
  by (cases "hWriteAt (WriteData req) (WriteOffset req) (upgradeHandleForWriting w)")
     (auto simp: Write_def Let_def split: option.splits)


text \<open>
  C6. For a handle whose counter of bytes written is not negative: when it is 0, \<open>Flush\<close>
  and \<open>Fsync\<close> return \<open>nil\<close> and leave the state as it was, the calls made included;
  otherwise each is \<open>copyToDFS\<close> (after one log record), and \<open>copyToDFS\<close> returns or
  panics, and when it returns it has called the remote \<open>create\<close> first.
\<close>

theorem Flush_Fsync_noop_or_copy:
  assumes "0 \<le> totalBytesWritten fh"
  shows "(totalBytesWritten fh = 0 \<longrightarrow>
            Flush nr fh w = Some (Ret (None, w, [])) \<and> Fsync nr fh w = Some (Ret (None, w, []))) \<and>
         (totalBytesWritten fh \<noteq> 0 \<longrightarrow>
            Flush nr fh w =
              withLog (loginfo ''Flush file'' (logInfo fh w [Operation \<mapsto> OpVal OpFlush]))
                (copyToDFS nr OpFlush fh w) \<and>
            Fsync nr fh w =
              withLog (loginfo ''Fsync file'' (logInfo fh w [Operation \<mapsto> OpVal OpFsync]))
                (copyToDFS nr OpFsync fh w) \<and>
            (\<forall>operation. \<exists>r. copyToDFS nr operation fh w = Some r \<and>
               (\<forall>err w' logs. r = Ret (err, w', logs) \<longrightarrow>
                  (\<exists>cs. calls w' = calls w
                     @ CreateFileCall (AbsolutePath (File w)) (Mode (File w)) True # cs))))"
proof (cases "totalBytesWritten fh = 0")
  case True
  then show ?thesis by (simp add: Flush_def Fsync_def dataChanged_def)
next
  case False
  with assms have pos: "0 < totalBytesWritten fh" by simp
  have "\<exists>r. copyToDFS nr operation fh w = Some r \<and>
               (\<forall>err w' logs. r = Ret (err, w', logs) \<longrightarrow>
                  (\<exists>cs. calls w' = calls w
                     @ CreateFileCall (AbsolutePath (File w)) (Mode (File w)) True # cs))" for operation
  proof -
    let ?l = "[logdebug ''Uploading to DFS''
                   (logInfo fh w [Operation \<mapsto> OpVal OpWrite, Bytes \<mapsto> KeyVal TotalBytesWritten])]"
    from copyToDFS_loop_terminates obtain r where
      r: "copyToDFS_loop nr operation fh (StartOperation w) w ?l = Some r" by blast
    show ?thesis
    proof (cases r)
      case Panic
      with r False show ?thesis by (simp add: copyToDFS_def)
    next
      case (Ret y)
      obtain err w1 ls where y: "y = (err, w1, ls)" by (cases y) auto
      from copyToDFS_loop_calls r Ret y obtain cs where
        "calls w1 = calls w @ CreateFileCall (AbsolutePath (File w)) (Mode (File w)) True # cs"
        by blast
      with r Ret y False show ?thesis by (simp add: copyToDFS_def InvalidateMetadataCache_def)
    qed
  qed
  with pos False show ?thesis by (simp add: Flush_def Fsync_def dataChanged_def)
qed

theorem Flush_Fsync_noop_or_copy_witness:
  "Flush resetRetriable fhNew world0 = Some (Ret (None, world0, [])) \<and>
   Fsync resetRetriable fhNew world0 = Some (Ret (None, world0, [])) \<and>
   Flush resetRetriable fh1 world0 =
     withLog (loginfo ''Flush file'' (logInfo fh1 world0 [Operation \<mapsto> OpVal OpFlush]))
       (copyToDFS resetRetriable OpFlush fh1 world0) \<and>
   observe (copyToDFS resetRetriable OpFlush fh1 world0) =
     Some (Ret (None, [CreateFileCall ''/f'' 420 True, WriterWrite [1, 2, 3], WriterClose],
       Some [1, 2, 3]))"
proof -
  have a: "0 \<le> totalBytesWritten fhNew" "totalBytesWritten fhNew = 0"
    and b: "0 \<le> totalBytesWritten fh1" "totalBytesWritten fh1 \<noteq> 0"
    by (simp_all add: world_simps)
  have c: "observe (copyToDFS resetRetriable OpFlush fh1 world0) =
     Some (Ret (None, [CreateFileCall ''/f'' 420 True, WriterWrite [1, 2, 3], WriterClose],
       Some [1, 2, 3]))"
    by (simp add: run_simps world_simps)
  from Flush_Fsync_noop_or_copy [OF a(1), of resetRetriable world0] a(2)
    Flush_Fsync_noop_or_copy [OF b(1), of resetRetriable world0] b(2) c
  show ?thesis by simp
qed


text \<open>
  C7. \<open>Flush\<close> and \<open>Fsync\<close> return the same error and leave the same state, in every
  state and for every handle; only the log records they write differ.
\<close>

theorem Flush_Fsync_same: "unlogged (Flush nr fh w) = unlogged (Fsync nr fh w)"
  by (simp add: Flush_def Fsync_def copyToDFS_same [of nr OpFlush fh w OpFsync])

theorem Flush_Fsync_same_witness:
  "unlogged (Flush resetRetriable fh1 world0) = unlogged (Fsync resetRetriable fh1 world0) \<and>
   map_option (map_exec (\<lambda>(err, w, logs). headlines logs)) (Flush resetRetriable fh1 world0) =
     Some (Ret [(INFO, ''Flush file''), (DEBUG, ''Uploading to DFS''), (TRACE, ''Written to DFS''),
                (INFO, ''Uploaded to DFS'')]) \<and>
   map_option (map_exec (\<lambda>(err, w, logs). headlines logs)) (Fsync resetRetriable fh1 world0) =
     Some (Ret [(INFO, ''Fsync file''), (DEBUG, ''Uploading to DFS''), (TRACE, ''Written to DFS''),
                (INFO, ''Uploaded to DFS'')])"
proof -
  have "map_option (map_exec (\<lambda>(err, w, logs). headlines logs)) (Flush resetRetriable fh1 world0) =
     Some (Ret [(INFO, ''Flush file''), (DEBUG, ''Uploading to DFS''), (TRACE, ''Written to DFS''),
                (INFO, ''Uploaded to DFS'')])"
    by (simp add: run_simps world_simps log_simps)
  moreover
  have "map_option (map_exec (\<lambda>(err, w, logs). headlines logs)) (Fsync resetRetriable fh1 world0) =
     Some (Ret [(INFO, ''Fsync file''), (DEBUG, ''Uploading to DFS''), (TRACE, ''Written to DFS''),
                (INFO, ''Uploaded to DFS'')])"
    by (simp add: run_simps world_simps log_simps)
  ultimately show ?thesis using Flush_Fsync_same [of resetRetriable fh1 world0] by simp
qed


text \<open>Without a fault of the staging file, a flush that returns success has left the
  staging file's contents in the remote file.\<close>

lemma Flush_success_uploads_staging:
  assumes "handle (File w) = Some h" and "\<forall>f\<in>set (stagingFaults w). f = None"
    and "0 < totalBytesWritten fh"
    and "Flush nr fh w = Some (Ret (None, w', logs)) \<or> Fsync nr fh w = Some (Ret (None, w', logs))"
  shows "remote w' (AbsolutePath (File w)) = Some (content h)"
proof -
  from assms(3,4) obtain operation ls where "copyToDFS nr operation fh w = Some (Ret (None, w', ls))"
    by (auto simp: Flush_def Fsync_def dataChanged_def dest: withLog_Ret)
  with assms(3) obtain w1 where
    "copyToDFS_loop nr operation fh (StartOperation w) w
       [logdebug ''Uploading to DFS''
          (logInfo fh w [Operation \<mapsto> OpVal OpWrite, Bytes \<mapsto> KeyVal TotalBytesWritten])]
     = Some (Ret (None, w1, ls))" "w' = InvalidateMetadataCache w1"
    by (auto simp: copyToDFS_def split: option.splits exec.splits)
  with copyToDFS_loop_fault_free [OF assms(1,2)] show ?thesis
    by (simp add: InvalidateMetadataCache_def)
qed

lemma pwrite_reads_back: "take (length d) (drop off (pwrite c off d)) = d"
  by (simp add: pwrite_def)


text \<open>An accepted write has put its bytes into the staging file at its offset, and has
  counted them; a flush after it that returns success, without a fault of the staging
  file, has them in the remote file at that offset.\<close>

lemma Write_accepted:
  assumes "Write fh req w = Ret (None, nw, fh', w', logs)"
  shows "\<exists>h h'. handle (File w) = Some h \<and> handle (File w') = Some h' \<and>
           content h' = pwrite (content h) (nat (WriteOffset req)) (WriteData req) \<and>
           nw = length (WriteData req) \<and>
           totalBytesWritten fh' = totalBytesWritten fh + int (length (WriteData req)) \<and>
           AbsolutePath (File w') = AbsolutePath (File w) \<and>
           set (stagingFaults w') \<subseteq> set (stagingFaults w)"
proof -
  obtain f fs where nf: "nextFault (stagingFaults w) = (f, fs)"
    by (cases "nextFault (stagingFaults w)")
  with nextFault_set [of "stagingFaults w"] have "set fs \<subseteq> set (stagingFaults w)" by simp
  with assms nf show ?thesis
    by (cases "handle (File w)"; cases f)
       (auto simp: Write_def hWriteAt_def upgradeHandleForWriting_def setHandle_def Let_def
          split: if_splits)
qed

lemma Write_then_Flush:
  assumes "\<forall>f\<in>set (stagingFaults w). f = None" and "0 \<le> totalBytesWritten fh"
    and "WriteData req \<noteq> []"
    and "Write fh req w = Ret (None, nw, fh', w1, logs1)"
    and "Flush nr fh' w1 = Some (Ret (None, w2, logs2))"
  shows "\<exists>c. remote w2 (AbsolutePath (File w)) = Some c \<and>
             take (length (WriteData req)) (drop (nat (WriteOffset req)) c) = WriteData req"
proof -
  from Write_accepted [OF assms(4)] obtain h h' where
    h: "handle (File w1) = Some h'"
      "content h' = pwrite (content h) (nat (WriteOffset req)) (WriteData req)"
      "totalBytesWritten fh' = totalBytesWritten fh + int (length (WriteData req))"
      "AbsolutePath (File w1) = AbsolutePath (File w)"
      "set (stagingFaults w1) \<subseteq> set (stagingFaults w)"
      "handle (File w) = Some h"
    by blast
  from h(5) assms(1) have nf: "\<forall>f\<in>set (stagingFaults w1). f = None" by auto
  from assms(3) have "0 < length (WriteData req)" by simp
  with h(3) assms(2) have pos: "0 < totalBytesWritten fh'" by linarith
  from Flush_success_uploads_staging [OF h(1) nf pos, of nr w2 logs2] assms(5) h(2,4)
  show ?thesis by (simp add: pwrite_reads_back)
qed


text \<open>
  C4. A failed read of the staging file during the copy should reach the caller of
  \<open>Flush\<close> as an error. It does not: when the first read fails with EIO, the failure
  is logged as an error, the loop is left, the writer is closed and \<open>Flush\<close> returns
  \<open>nil\<close>. The remote file has been replaced by an empty one; the staging file holds
  three bytes.
\<close>

theorem Flush_swallows_staging_read_error:
  "observe (Flush resetRetriable fh1 worldReadFault) =
     Some (Ret (None, [CreateFileCall ''/f'' 420 True, WriterClose], Some [])) \<and>
   map_option (map_exec (\<lambda>(err, w, logs). headlines logs)) (Flush resetRetriable fh1 worldReadFault) =
     Some (Ret [(INFO, ''Flush file''), (DEBUG, ''Uploading to DFS''),
                (ERROR, ''Failed to read from staging file''), (INFO, ''Uploaded to DFS'')]) \<and>
   map_option content (handle (File worldReadFault)) = Some [1, 2, 3]"
  by (simp add: run_simps world_simps log_simps)

text \<open>
  C1. A flush that returns success should leave every accepted write in the remote
  file. It does not when a read of the staging file fails: a write of three bytes at
  offset 0 is accepted (it returns \<open>nil\<close> and the staging file holds the bytes), the
  first read of the staging file then fails with EIO during the flush, and \<open>Flush\<close>
  returns \<open>nil\<close> with an empty remote file.
\<close>

theorem Write_then_Flush_loses_bytes:
  "(case Write fhNew \<lparr>WriteData = [1, 2, 3], WriteOffset = 0\<rparr> worldFresh of
      Panic \<Rightarrow> None
    | Ret (werr, nw, fh', w', l) \<Rightarrow>
        Some (werr, nw, totalBytesWritten fh', map_option content (handle (File w')),
              observe (Flush resetRetriable fh' w')))
   = Some (None, 3, 3, Some [1, 2, 3],
       Some (Ret (None, [CreateFileCall ''/f'' 420 True, WriterClose], Some [])))"
  by (simp add: Write_def hWriteAt_def upgradeHandleForWriting_def pwrite_def run_simps world_simps)

subsection \<open>Read\<close>

text \<open>
  C3. Whatever the read of the staging file returns, \<open>Read\<close> returns \<open>nil\<close> when that
  was \<open>io.EOF\<close> (or no error), hands the bytes read to the response, and returns every
  other error unchanged. \<open>io.EOF\<close> is never the error \<open>Read\<close> returns.
\<close>

theorem Read_EOF_is_success:
  assumes "hReadAt (ReadSize req) (ReadOffset req) w = Ret ((nr, buf, rerr), w1)"
  shows "(\<exists>fh1 logs. Read fh req w =
            Ret ((if rerr = Some EOF then None else rerr), buf, fh1, w1, logs)) \<and>
         (\<forall>buf' fh' w' logs'. Read fh req w \<noteq> Ret (Some EOF, buf', fh', w', logs'))"
  using assms by (auto simp: Read_def Let_def split: option.splits)

theorem Read_EOF_is_success_witness:
  "hReadAt 10 1 world0 = Ret ((2, [2, 3], Some EOF), world0) \<and>
   (\<exists>fh' logs. Read fh1 \<lparr>ReadOffset = 1, ReadSize = 10\<rparr> world0 = Ret (None, [2, 3], fh', world0, logs))"
proof -
  have a: "hReadAt (ReadSize \<lparr>ReadOffset = 1, ReadSize = 10\<rparr>) (ReadOffset \<lparr>ReadOffset = 1, ReadSize = 10\<rparr>) world0
           = Ret ((2, [2, 3], Some EOF), world0)"
    by (simp add: hReadAt_def world0_def file0_def staging0_def Let_def)
  from Read_EOF_is_success [OF a, of fh1] a show ?thesis by simp
qed


subsection \<open>Release\<close>

text \<open>
  C8. \<open>Release\<close> of a handle that is among the inode's active handles, on an inode whose
  staging file is open, returns \<open>nil\<close>, takes the handle out of the set (the count drops
  by one) and invalidates the cached metadata. The staging file is closed and its
  reference cleared exactly when the count has reached 0; otherwise it is left as it was.
\<close>

theorem Release_closes_iff_last:
  assumes "handle (File w) = Some h" and "fhID fh |\<in>| activeHandles (File w)"
  shows "\<exists>w1 logs. Release fh w = Ret (None, w1, logs) \<and>
           activeHandles (File w1) = activeHandles (File w) |-| {|fhID fh|} \<and>
           countActiveHandles w1 = countActiveHandles w - 1 \<and>
           countActiveHandles w1 < countActiveHandles w \<and>
           metadataCached (File w1) = False \<and>
           (if countActiveHandles w1 = 0
            then handle (File w1) = None \<and> calls w1 = calls w @ [StagingClose]
            else handle (File w1) = Some h \<and> calls w1 = calls w)"
proof -
  let ?w1 = "RemoveHandle fh (InvalidateMetadataCache w)"
  have n: "countActiveHandles ?w1 = countActiveHandles w - 1"
    using assms(2)
    by (simp add: countActiveHandles_def RemoveHandle_def InvalidateMetadataCache_def
        fcard_fminus_fsingleton)
  have pos: "0 < countActiveHandles w"
    using fcard_Suc_fminus1 [OF assms(2)] by (simp add: countActiveHandles_def)
  have hd: "handle (File ?w1) = Some h" and ah: "activeHandles (File ?w1) = activeHandles (File w) |-| {|fhID fh|}"
    and mc: "metadataCached (File ?w1) = False" and cl: "calls ?w1 = calls w"
    using assms(1) by (simp_all add: RemoveHandle_def InvalidateMetadataCache_def)
  show ?thesis
  proof (cases "countActiveHandles ?w1 = 0")
    case True
    obtain f fs where nf: "nextFault (stagingFaults ?w1) = (f, fs)"
      by (cases "nextFault (stagingFaults ?w1)")
    let ?w2 = "?w1\<lparr>stagingFaults := fs, calls := calls ?w1 @ [StagingClose]\<rparr>"
    let ?w3 = "?w2\<lparr>File := (File ?w2)\<lparr>handle := None\<rparr>\<rparr>"
    have c: "hClose ?w1 = Ret (f, ?w2)"
      using hd nf by (simp add: hClose_def)
    have r: "\<exists>logs. Release fh w = Ret (None, ?w3, logs)"
      using True c by (simp add: Release_def Let_def)
    have cnt: "countActiveHandles ?w3 = countActiveHandles ?w1"
      by (simp add: countActiveHandles_def)
    from r obtain logs where r': "Release fh w = Ret (None, ?w3, logs)" by blast
    have "Release fh w = Ret (None, ?w3, logs) \<and>
           activeHandles (File ?w3) = activeHandles (File w) |-| {|fhID fh|} \<and>
           countActiveHandles ?w3 = countActiveHandles w - 1 \<and>
           countActiveHandles ?w3 < countActiveHandles w \<and>
           metadataCached (File ?w3) = False \<and>
           (if countActiveHandles ?w3 = 0
            then handle (File ?w3) = None \<and> calls ?w3 = calls w @ [StagingClose]
            else handle (File ?w3) = Some h \<and> calls ?w3 = calls w)"
      using r' n pos True cnt ah mc cl by simp
    then show ?thesis by blast
  next
    case False
    have r: "\<exists>logs. Release fh w = Ret (None, ?w1, logs)"
      using False by (simp add: Release_def Let_def)
    from r obtain logs where r': "Release fh w = Ret (None, ?w1, logs)" by blast
    have "Release fh w = Ret (None, ?w1, logs) \<and>
           activeHandles (File ?w1) = activeHandles (File w) |-| {|fhID fh|} \<and>
           countActiveHandles ?w1 = countActiveHandles w - 1 \<and>
           countActiveHandles ?w1 < countActiveHandles w \<and>
           metadataCached (File ?w1) = False \<and>
           (if countActiveHandles ?w1 = 0
            then handle (File ?w1) = None \<and> calls ?w1 = calls w @ [StagingClose]
            else handle (File ?w1) = Some h \<and> calls ?w1 = calls w)"
      using r' n pos False hd ah mc cl by simp
    then show ?thesis by blast
  qed
qed

theorem Release_closes_iff_last_witness:
  "(handle (File world0) = Some staging0 \<and> fhID fh1 |\<in>| activeHandles (File world0) \<and>
    (\<exists>w1 logs. Release fh1 world0 = Ret (None, w1, logs) \<and>
       countActiveHandles w1 = 1 \<and> metadataCached (File w1) = False \<and>
       handle (File w1) = Some staging0 \<and> calls w1 = [])) \<and>
   (handle (File worldLast) = Some staging0 \<and> fhID fh1 |\<in>| activeHandles (File worldLast) \<and>
    (\<exists>w1 logs. Release fh1 worldLast = Ret (None, w1, logs) \<and>
       countActiveHandles w1 = 0 \<and> metadataCached (File w1) = False \<and>
       handle (File w1) = None \<and> calls w1 = [StagingClose]))"
proof -
  have a: "handle (File world0) = Some staging0" "fhID fh1 |\<in>| activeHandles (File world0)"
    and c: "countActiveHandles world0 = 2" "calls world0 = []"
    by (simp_all add: world0_def file0_def fh1_def countActiveHandles_def fcard_finsert_if)
  have b: "handle (File worldLast) = Some staging0" "fhID fh1 |\<in>| activeHandles (File worldLast)"
    and d: "countActiveHandles worldLast = 1" "calls worldLast = []"
    by (simp_all add: worldLast_def world0_def file0_def fh1_def countActiveHandles_def fcard_finsert_if)
  from Release_closes_iff_last [OF a] c obtain w1 logs where
    "Release fh1 world0 = Ret (None, w1, logs) \<and>
       countActiveHandles w1 = 1 \<and> metadataCached (File w1) = False \<and>
       handle (File w1) = Some staging0 \<and> calls w1 = []"
    by auto
  moreover from Release_closes_iff_last [OF b] d obtain w2 logs2 where
    "Release fh1 worldLast = Ret (None, w2, logs2) \<and>
       countActiveHandles w2 = 0 \<and> metadataCached (File w2) = False \<and>
       handle (File w2) = None \<and> calls w2 = [StagingClose]"
    by auto
  ultimately show ?thesis using a b by blast
qed







subsection \<open>Truncate\<close>

text \<open>
  C10. On an open staging file \<open>Truncate\<close> returns \<open>nil\<close> for every size. When the
  truncate of the staging file fails, the failure is written to the log and \<open>nil\<close> is
  returned all the same.
\<close>

theorem Truncate_never_reports:
  assumes "handle (File w) = Some h"
  shows "(\<exists>w1 logs. Truncate fh sz w = Ret (None, w1, logs)) \<and>
         (\<forall>e w1. hTruncate sz w = Ret (Some e, w1) \<longrightarrow>
            Truncate fh sz w = Ret (None, w1,
              [logerror ''Failed to truncate file''
                 (logInfo fh w1 [Operation \<mapsto> OpVal OpTruncate, Bytes \<mapsto> IntVal sz, Error \<mapsto> ErrVal e]),
               loginfo ''Truncated file''
                 (logInfo fh w1 [Operation \<mapsto> OpVal OpTruncate, Bytes \<mapsto> IntVal sz])]))"
proof -
  obtain f fs where nf: "nextFault (stagingFaults w) = (f, fs)"
    by (cases "nextFault (stagingFaults w)")
  have "\<exists>err w1. hTruncate sz w = Ret (err, w1)"
    using assms nf by (cases f) (simp_all add: hTruncate_def)
  then obtain err w1 where h: "hTruncate sz w = Ret (err, w1)" by blast
  show ?thesis using h by (simp add: Truncate_def)
qed

theorem Truncate_never_reports_witness:
  "handle (File (world0\<lparr>stagingFaults := [Some (Errno 5)]\<rparr>)) = Some staging0 \<and>
   hTruncate 7 (world0\<lparr>stagingFaults := [Some (Errno 5)]\<rparr>) = Ret (Some (Errno 5), world0) \<and>
   Truncate fh1 7 (world0\<lparr>stagingFaults := [Some (Errno 5)]\<rparr>) =
     Ret (None, world0,
       [logerror ''Failed to truncate file''
          (logInfo fh1 world0 [Operation \<mapsto> OpVal OpTruncate, Bytes \<mapsto> IntVal 7, Error \<mapsto> ErrVal (Errno 5)]),
        loginfo ''Truncated file''
          (logInfo fh1 world0 [Operation \<mapsto> OpVal OpTruncate, Bytes \<mapsto> IntVal 7])])"
proof -
  have a: "handle (File (world0\<lparr>stagingFaults := [Some (Errno 5)]\<rparr>)) = Some staging0"
    by (simp add: world0_def file0_def)
  have b: "hTruncate 7 (world0\<lparr>stagingFaults := [Some (Errno 5)]\<rparr>) = Ret (Some (Errno 5), world0)"
    by (simp add: hTruncate_def world0_def file0_def)
  from Truncate_never_reports [OF a, of fh1 7] a b show ?thesis by blast
qed


end
